theory Spec2Isabelle
  imports Main "HOL-Library.Word" "HOL-Library.Signed_Division"
begin

unbundle bit_operations_syntax

section \<open>Data model\<close>

text \<open>
  The program works on fixed-capacity arrays of 32-bit words (\<open>u32 x[MAX_WORDS]\<close>), least
  significant word first, of which the first \<open>nwords\<close> entries are in use. An array is
  modelled as a list of words; a function that writes through a pointer takes the old
  contents of the array and returns the new contents. The word count \<open>nwords\<close> is a
  \<open>nat\<close>: the arrays have capacity \<open>MAX_WORDS = 64\<close>, so no word count that the C code
  can run with comes near the 32-bit wrap-around.
\<close>

type_synonym u32 = "32 word"
type_synonym u64 = "64 word"

definition MAX_WORDS :: nat where
  "MAX_WORDS = 64"

definition HW_DONE_TIMEOUT :: nat where
  "HW_DONE_TIMEOUT = 100000000"

text \<open>The number a little-endian sequence of 32-bit digits stands for.\<close>

fun words_val :: "nat list \<Rightarrow> nat" where
  "words_val [] = 0"
| "words_val (x # xs) = x + 2 ^ 32 * words_val xs"

text \<open>The numeric value of the low \<open>w\<close> words of an array.\<close>

definition bn_value :: "nat \<Rightarrow> u32 list \<Rightarrow> nat" where
  "bn_value w A = words_val (map unat (take w A))"

section \<open>Big-integer helpers\<close>

definition bigint_copy :: "u32 list \<Rightarrow> u32 list \<Rightarrow> nat \<Rightarrow> u32 list" where
  "bigint_copy dst src nwords = fold (\<lambda>i d. d[i := src ! i]) [0..<nwords] dst"

definition bigint_set_u32 :: "u32 list \<Rightarrow> u32 \<Rightarrow> nat \<Rightarrow> u32 list" where
  "bigint_set_u32 dst v nwords = fold (\<lambda>i d. d[i := 0]) [1..<nwords] (dst[0 := v])"

definition bigint_equal :: "u32 list \<Rightarrow> u32 list \<Rightarrow> nat \<Rightarrow> bool" where
  "bigint_equal a b nwords = list_all (\<lambda>i. a ! i = b ! i) [0..<nwords]"

subsection \<open>The software modular multiply\<close>

text \<open>
  One step of the inner loop of \<open>modmul_sw\<close>:
  \<^verbatim>\<open>u64 t = tmp[i + j] + (u64)A[i] * (u64)B[j] + carry; tmp[i + j] = (u32)t; carry = t >> 32;\<close>
  in 64-bit arithmetic. The state is the array \<open>tmp\<close> and the carry.
\<close>

definition mac_step :: "u32 list \<Rightarrow> u32 list \<Rightarrow> nat \<Rightarrow> nat \<Rightarrow> u64 list \<times> u64 \<Rightarrow> u64 list \<times> u64" where
  "mac_step A B i j = (\<lambda>(tmp, carry).
     let t = tmp ! (i + j) + ucast (A ! i) * ucast (B ! j) + carry
     in (tmp[i + j := ucast (ucast t :: u32)], drop_bit 32 t))"

text \<open>One pass of the outer loop: the inner loop from carry 0, then \<open>tmp[i + nwords] += carry\<close>.\<close>

definition mul_row :: "u32 list \<Rightarrow> u32 list \<Rightarrow> nat \<Rightarrow> nat \<Rightarrow> u64 list \<Rightarrow> u64 list" where
  "mul_row A B nwords i tmp =
     (let (tmp', carry) = fold (mac_step A B i) [0..<nwords] (tmp, 0)
      in tmp'[i + nwords := tmp' ! (i + nwords) + carry])"

text \<open>
  The product loop. The local array \<open>tmp\<close> has \<open>2 * MAX_WORDS\<close> entries of which the
  first loop zeroes the first \<open>2 * nwords\<close>; no later statement touches the others, so
  the model keeps only the zeroed part.
\<close>

definition mul_schoolbook :: "u32 list \<Rightarrow> u32 list \<Rightarrow> nat \<Rightarrow> u64 list" where
  "mul_schoolbook A B nwords =
     fold (mul_row A B nwords) [0..<nwords] (replicate (2 * nwords) 0)"

text \<open>
  The comparison loop that computes the flag \<open>ge\<close>, from the most significant word down:
  \<^verbatim>\<open>int ge = 0; for (i = nwords; i > 0; ) { --i; if (R[i] > N[i]) { ge = 1; break; }
  if (R[i] < N[i]) { ge = 0; break; } }\<close>
  When the loop runs out of words the flag keeps its initial value 0.
\<close>

fun ge_flag :: "u32 list \<Rightarrow> u32 list \<Rightarrow> nat \<Rightarrow> bool" where
  "ge_flag R N 0 = False"
| "ge_flag R N (Suc i) =
     (if R ! i > N ! i then True else if R ! i < N ! i then False else ge_flag R N i)"

text \<open>
  One step of the subtraction loop:
  \<^verbatim>\<open>u64 t = (u64)R[i] - (u64)N[i] - borrow; R[i] = (u32)t; borrow = (t >> 63) & 1ULL;\<close>
\<close>

definition sub_step :: "u32 list \<Rightarrow> nat \<Rightarrow> u32 list \<times> u64 \<Rightarrow> u32 list \<times> u64" where
  "sub_step N i = (\<lambda>(R, borrow).
     let t = (ucast (R ! i) :: u64) - ucast (N ! i) - borrow
     in (R[i := ucast t], drop_bit 63 t AND 1))"

definition sub_words :: "u32 list \<Rightarrow> u32 list \<Rightarrow> nat \<Rightarrow> u32 list" where
  "sub_words R N nwords = fst (fold (sub_step N) [0..<nwords] (R, 0))"

text \<open>
  The reduction loop \<^verbatim>\<open>for (;;) { ...; if (!ge) break; ... }\<close> has no bound, so it is a
  partial function: \<open>None\<close> is the loop that never leaves.
\<close>

partial_function (option) reduce_loop :: "u32 list \<Rightarrow> u32 list \<Rightarrow> nat \<Rightarrow> u32 list option" where
  "reduce_loop R N nwords =
     (if ge_flag R N nwords then reduce_loop (sub_words R N nwords) N nwords else Some R)"

declare reduce_loop.simps [code]

text \<open>
  \<open>modmul_sw A B N R nwords\<close>: the arrays \<open>A\<close>, \<open>B\<close> and \<open>N\<close> are only read, and all reads
  of \<open>A\<close> and \<open>B\<close> happen before the first write to \<open>R\<close>, so a call in which \<open>R\<close> is the
  same array as \<open>A\<close> or \<open>B\<close> is the call of the model with the old contents of that array
  as \<open>R\<close>. The result is the new contents of \<open>R\<close>.
\<close>

definition modmul_sw :: "u32 list \<Rightarrow> u32 list \<Rightarrow> u32 list \<Rightarrow> u32 list \<Rightarrow> nat \<Rightarrow> u32 list option" where
  "modmul_sw A B N R nwords =
     (let tmp = mul_schoolbook A B nwords;
          R1 = fold (\<lambda>i r. r[i := ucast (tmp ! i)]) [0..<nwords] R
      in reduce_loop R1 N nwords)"

section \<open>Montgomery parameters\<close>

text \<open>
  \<open>modinv32\<close> computes in \<open>int64_t\<close>. The model computes in \<open>int\<close> and brings the result
  of every multiplication, subtraction and addition back into the 64-bit two's complement
  range; the division is C's, which truncates towards zero.
\<close>

definition wrap64 :: "int \<Rightarrow> int" where
  "wrap64 k = signed_take_bit 63 k"

text \<open>The loop \<^verbatim>\<open>while (new_r != 0)\<close> on the four variables \<open>t\<close>, \<open>new_t\<close>, \<open>r\<close>, \<open>new_r\<close>.\<close>

partial_function (option) modinv32_loop :: "int \<Rightarrow> int \<Rightarrow> int \<Rightarrow> int \<Rightarrow> int option" where
  "modinv32_loop t new_t r new_r =
     (if new_r \<noteq> 0 then
        let q = r sdiv new_r
        in modinv32_loop new_t (wrap64 (t - wrap64 (q * new_t)))
                         new_r (wrap64 (r - wrap64 (q * new_r)))
      else Some t)"

declare modinv32_loop.simps [code]

text \<open>
  \<^verbatim>\<open>t = 0, new_t = 1, r = 1 << 32, new_r = n\<close>; after the loop
  \<^verbatim>\<open>if (t < 0) t += 1 << 32; return (u32)t;\<close>
\<close>

definition modinv32 :: "u32 \<Rightarrow> u32 option" where
  "modinv32 n =
     (case modinv32_loop 0 1 (2 ^ 32) (uint n) of
        None \<Rightarrow> None
      | Some t \<Rightarrow> Some (word_of_int (if t < 0 then wrap64 (t + 2 ^ 32) else t)))"

section \<open>The toy key and its Montgomery parameters\<close>

text \<open>
  The key \<open>n = 3233\<close>, \<open>e = 17\<close>, \<open>d = 2753\<close> and the plaintext 42, each array padded with
  zero words to the capacity \<open>MAX_WORDS\<close>.
\<close>

definition RSA_N :: "u32 list" where
  "RSA_N = 3233 # replicate (MAX_WORDS - 1) 0"

definition RSA_E :: u32 where "RSA_E = 17"
definition RSA_E_BITS :: int where "RSA_E_BITS = 5"
definition RSA_D :: u32 where "RSA_D = 2753"
definition RSA_D_BITS :: int where "RSA_D_BITS = 12"

definition RSA_MSG :: "u32 list" where
  "RSA_MSG = 42 # replicate (MAX_WORDS - 1) 0"

text \<open>
  \<open>compute_R2_modN_32\<close> doubles \<open>r\<close> modulo \<open>n0\<close> in 64-bit arithmetic \<open>32 * nwords\<close> times,
  squares it once and returns the low 32 bits. The C code divides by \<open>n0\<close> with no check;
  the model has no result for \<open>n0 = 0\<close>.
\<close>

definition compute_R2_modN_32 :: "u32 \<Rightarrow> nat \<Rightarrow> u32 option" where
  "compute_R2_modN_32 n0 nwords =
     (if n0 = 0 then None
      else let r = fold (\<lambda>i r. (r * 2) mod ucast n0) [0..<32 * nwords] (1 :: u64);
               r' = (r * r) mod ucast n0
           in Some (ucast r'))"

text \<open>
  \<open>init_mont_params_for_size\<close> reads the low word of the global \<open>RSA_N\<close>, zeroes the first
  \<open>nwords\<close> words of \<open>R2_out\<close>, stores \<open>r2\<close> in word 0 and returns
  \<open>n' = 0 - n0\<^sup>-\<^sup>1 mod 2^32\<close> through its second pointer; the model returns the new contents
  of \<open>R2_out\<close> and \<open>n'\<close>.
\<close>

definition init_mont_params_for_size :: "nat \<Rightarrow> u32 list \<Rightarrow> (u32 list \<times> u32) option" where
  "init_mont_params_for_size nwords R2_out =
     (let n0 = RSA_N ! 0 in
      case modinv32 n0 of
        None \<Rightarrow> None
      | Some inv0 \<Rightarrow>
          (let nprime = 0 - inv0 in
           case compute_R2_modN_32 n0 nwords of
             None \<Rightarrow> None
           | Some r2 \<Rightarrow> Some ((fold (\<lambda>i r. r[i := 0]) [0..<nwords] R2_out)[0 := r2], nprime)))"

section \<open>The accelerator port\<close>

text \<open>
  A local array \<^verbatim>\<open>u32 x[MAX_WORDS]\<close> has no defined contents before it is written. The
  model starts it from zeros; no function below reads a word of a local array that it
  has not written before.
\<close>

definition uninit_words :: "u32 list" where
  "uninit_words = replicate MAX_WORDS 0"

text \<open>
  Modelled from the spec: the accelerator is reached through the register reads and
  writes \<open>Xil_In32\<close> and \<open>Xil_Out32\<close> of the platform header, which is not part of the
  sources. The device behind the registers is a parameter: a state machine with a
  reaction to a write (address, value) and to a read (address), of any state type.
  The bus state is the state of the device together with the trace of all accesses so
  far, each with its address and value.
\<close>

datatype io_event = Out32 u32 u32 | In32 u32 u32

record 'd device =
  dev_out :: "u32 \<Rightarrow> u32 \<Rightarrow> 'd \<Rightarrow> 'd"
  dev_in :: "u32 \<Rightarrow> 'd \<Rightarrow> u32 \<times> 'd"

type_synonym 'd bus = "'d \<times> io_event list"

definition Xil_Out32 :: "'d device \<Rightarrow> u32 \<Rightarrow> u32 \<Rightarrow> 'd bus \<Rightarrow> 'd bus" where
  "Xil_Out32 dev addr v = (\<lambda>(d, log). (dev_out dev addr v d, log @ [Out32 addr v]))"

definition Xil_In32 :: "'d device \<Rightarrow> u32 \<Rightarrow> 'd bus \<Rightarrow> u32 \<times> 'd bus" where
  "Xil_In32 dev addr = (\<lambda>(d, log).
     let (v, d') = dev_in dev addr d in (v, (d', log @ [In32 addr v])))"

text \<open>The register layout, in 32-bit address arithmetic as in the macros.\<close>

definition REG_A :: "u32 \<Rightarrow> nat \<Rightarrow> u32" where
  "REG_A base i = base + 0x000 + 4 * of_nat i"
definition REG_B :: "u32 \<Rightarrow> nat \<Rightarrow> u32" where
  "REG_B base i = base + 0x200 + 4 * of_nat i"
definition REG_N :: "u32 \<Rightarrow> nat \<Rightarrow> u32" where
  "REG_N base i = base + 0x400 + 4 * of_nat i"
definition REG_RES :: "u32 \<Rightarrow> nat \<Rightarrow> u32" where
  "REG_RES base i = base + 0x600 + 4 * of_nat i"
definition REG_NPRIME :: "u32 \<Rightarrow> u32" where
  "REG_NPRIME base = base + 0x800"
definition REG_CONTROL :: "u32 \<Rightarrow> u32" where
  "REG_CONTROL base = base + 0x804"
definition REG_STATUS :: "u32 \<Rightarrow> u32" where
  "REG_STATUS base = base + 0x808"

text \<open>
  \<open>montgomery_mul_hw\<close>, in the order of the source: one pass of the first loop writes a
  word of \<open>A\<close>, of \<open>B\<close> and of \<open>N\<close>; after the loop come \<open>n'\<close> and the start command.
\<close>

definition write_operand_word :: "'d device \<Rightarrow> u32 \<Rightarrow> u32 list \<Rightarrow> u32 list \<Rightarrow> u32 list \<Rightarrow> nat \<Rightarrow> 'd bus \<Rightarrow> 'd bus" where
  "write_operand_word dev base_addr A B N i s =
     Xil_Out32 dev (REG_N base_addr i) (N ! i)
       (Xil_Out32 dev (REG_B base_addr i) (B ! i)
         (Xil_Out32 dev (REG_A base_addr i) (A ! i) s))"

definition hw_start :: "'d device \<Rightarrow> u32 \<Rightarrow> nat \<Rightarrow> u32 list \<Rightarrow> u32 list \<Rightarrow> u32 list \<Rightarrow> u32 \<Rightarrow> 'd bus \<Rightarrow> 'd bus" where
  "hw_start dev base_addr nwords A B N nprime s =
     Xil_Out32 dev (REG_CONTROL base_addr) 1
       (Xil_Out32 dev (REG_NPRIME base_addr) nprime
         (fold (write_operand_word dev base_addr A B N) [0..<nwords] s))"

text \<open>
  The poll loop
  \<^verbatim>\<open>while ((Xil_In32(REG_STATUS(base_addr)) & 0x1U) == 0U) { if (++polls > HW_DONE_TIMEOUT) return 0; }\<close>
  The counter \<open>polls\<close> counts the reads that found bit 0 clear; it never exceeds
  \<open>HW_DONE_TIMEOUT + 1\<close>, far below the 32-bit wrap-around, so it is a \<open>nat\<close>. The result
  is \<open>False\<close> for the early \<^verbatim>\<open>return 0\<close>.
\<close>

function poll_done :: "'d device \<Rightarrow> u32 \<Rightarrow> nat \<Rightarrow> 'd bus \<Rightarrow> bool \<times> 'd bus" where
  "poll_done dev base_addr polls s =
     (let (v, s') = Xil_In32 dev (REG_STATUS base_addr) s
      in if v AND 1 = 0
         then (if polls + 1 > HW_DONE_TIMEOUT then (False, s')
               else poll_done dev base_addr (polls + 1) s')
         else (True, s'))"
  by pat_completeness auto
termination
  by (relation "measure (\<lambda>(dev, base_addr, polls, s). HW_DONE_TIMEOUT + 1 - polls)") auto

declare poll_done.simps [simp del]

text \<open>One pass of the last loop: \<^verbatim>\<open>R[i] = Xil_In32(REG_RES(base_addr, i))\<close>.\<close>

definition read_result_word :: "'d device \<Rightarrow> u32 \<Rightarrow> nat \<Rightarrow> u32 list \<times> 'd bus \<Rightarrow> u32 list \<times> 'd bus" where
  "read_result_word dev base_addr i = (\<lambda>(R, s).
     let (v, s') = Xil_In32 dev (REG_RES base_addr i) s in (R[i := v], s'))"

text \<open>
  The result of \<open>montgomery_mul_hw\<close> is the return value (\<open>True\<close> for 1), the new contents
  of the output array \<open>R\<close> and the new bus state. The parameter \<open>label\<close> only feeds the
  error message and is left out, as is the console output.
\<close>

definition montgomery_mul_hw ::
  "'d device \<Rightarrow> u32 \<Rightarrow> nat \<Rightarrow> u32 list \<Rightarrow> u32 list \<Rightarrow> u32 list \<Rightarrow> u32 \<Rightarrow> u32 list \<Rightarrow> 'd bus
     \<Rightarrow> bool \<times> u32 list \<times> 'd bus" where
  "montgomery_mul_hw dev base_addr nwords A B N nprime R s =
     (let (done, s') = poll_done dev base_addr 0 (hw_start dev base_addr nwords A B N nprime s)
      in if \<not> done then (False, R, s')
         else let (R', s'') = fold (read_result_word dev base_addr) [0..<nwords] (R, s')
              in (True, R', s''))"

text \<open>
  \<open>modexp_hw_scalar\<close>. The loop \<^verbatim>\<open>for (bit = 0; bit < exp_bits; ++bit)\<close> runs over the bit
  positions \<open>[0..<nat exp_bits]\<close> (none for a negative \<open>exp_bits\<close>); a failed
  invocation leaves the loop and the function at once. The test
  \<^verbatim>\<open>(exp >> bit) & 1U\<close> is \<open>drop_bit bit exp AND 1 \<noteq> 0\<close>. C defines the shift of the 32-bit
  \<open>exp\<close> only for \<open>bit < 32\<close>, where the two agree; from bit 32 on the program has no
  defined behaviour, and the model (which reads those bits as clear) says nothing
  about it. So the definition stands for the code when \<open>exp_bits \<le> 32\<close>, and every
  statement about the value of the result assumes that bound.
\<close>

fun modexp_hw_loop ::
  "'d device \<Rightarrow> u32 \<Rightarrow> u32 \<Rightarrow> u32 list \<Rightarrow> u32 \<Rightarrow> nat \<Rightarrow> nat list \<Rightarrow> u32 list \<Rightarrow> u32 list \<Rightarrow> 'd bus
     \<Rightarrow> bool \<times> u32 list \<times> u32 list \<times> 'd bus" where
  "modexp_hw_loop dev base_addr exp N nprime nwords [] x a s = (True, x, a, s)"
| "modexp_hw_loop dev base_addr exp N nprime nwords (b # bs) x a s =
     (let (ok, x', s') =
            (if drop_bit b exp AND 1 \<noteq> 0
             then montgomery_mul_hw dev base_addr nwords x a N nprime x s
             else (True, x, s))
      in if \<not> ok then (False, x', a, s')
         else let (ok, a', s'') = montgomery_mul_hw dev base_addr nwords a a N nprime a s'
              in if \<not> ok then (False, x', a', s'')
                 else modexp_hw_loop dev base_addr exp N nprime nwords bs x' a' s'')"

text \<open>
  The arrays \<open>x\<close> and \<open>a\<close> are both operand and output of an invocation; the port reads
  all operand words before it writes the first output word, so the invocation of the
  model gets the old contents as the output array. The caller's array \<open>result\<close> is the
  output array of the last invocation only.
\<close>

definition modexp_hw_scalar ::
  "'d device \<Rightarrow> u32 \<Rightarrow> u32 list \<Rightarrow> u32 \<Rightarrow> int \<Rightarrow> u32 list \<Rightarrow> u32 \<Rightarrow> u32 list \<Rightarrow> u32 list \<Rightarrow> nat \<Rightarrow> 'd bus
     \<Rightarrow> bool \<times> u32 list \<times> 'd bus" where
  "modexp_hw_scalar dev base_addr base exp exp_bits N nprime R2 result nwords s =
     (let one = bigint_set_u32 uninit_words 1 nwords;
          (ok, x, s1) = montgomery_mul_hw dev base_addr nwords one R2 N nprime uninit_words s
      in if \<not> ok then (False, result, s1)
         else let (ok, a, s2) = montgomery_mul_hw dev base_addr nwords base R2 N nprime uninit_words s1
         in if \<not> ok then (False, result, s2)
         else let (ok, x', a', s3) =
                    modexp_hw_loop dev base_addr exp N nprime nwords [0..<nat exp_bits] x a s2
         in if \<not> ok then (False, result, s3)
         else let (ok, result', s4) = montgomery_mul_hw dev base_addr nwords x' one N nprime result s3
         in if \<not> ok then (False, result', s4) else (True, result', s4))"

section \<open>The software exponentiation\<close>

text \<open>
  \<open>modexp_sw_scalar\<close>: \<open>x\<close> is set to 1, \<open>a\<close> is a copy of \<open>base\<close>; the loop multiplies with
  \<open>modmul_sw\<close>, whose output array is also its first operand; at the end \<open>x\<close> is copied
  into the caller's array \<open>result\<close>. The array \<open>one\<close> is set and not used. The function
  has no return value; the model returns the new contents of \<open>result\<close>, or \<open>None\<close> when a
  multiplication never returns. The bit test is that of \<open>modexp_hw_scalar\<close>: the shift
  \<^verbatim>\<open>exp >> bit\<close> is defined in C only for \<open>bit < 32\<close>, so the definition stands for the
  code when \<open>exp_bits \<le> 32\<close>, and every statement about the value of the result assumes
  that bound.
\<close>

fun modexp_sw_loop ::
  "u32 \<Rightarrow> u32 list \<Rightarrow> nat \<Rightarrow> nat list \<Rightarrow> u32 list \<Rightarrow> u32 list \<Rightarrow> (u32 list \<times> u32 list) option" where
  "modexp_sw_loop exp N nwords [] x a = Some (x, a)"
| "modexp_sw_loop exp N nwords (b # bs) x a =
     (case (if drop_bit b exp AND 1 \<noteq> 0 then modmul_sw x a N x nwords else Some x) of
        None \<Rightarrow> None
      | Some x' \<Rightarrow>
          (case modmul_sw a a N a nwords of
             None \<Rightarrow> None
           | Some a' \<Rightarrow> modexp_sw_loop exp N nwords bs x' a'))"

definition modexp_sw_scalar :: "u32 list \<Rightarrow> u32 \<Rightarrow> int \<Rightarrow> u32 list \<Rightarrow> u32 list \<Rightarrow> nat \<Rightarrow> u32 list option" where
  "modexp_sw_scalar base exp exp_bits N result nwords =
     (let one = bigint_set_u32 uninit_words 1 nwords;
          x = bigint_set_u32 uninit_words 1 nwords;
          a = bigint_copy uninit_words base nwords
      in case modexp_sw_loop exp N nwords [0..<nat exp_bits] x a of
           None \<Rightarrow> None
         | Some (x', a') \<Rightarrow> Some (bigint_copy result x' nwords))"

section \<open>An accelerator that multiplies correctly\<close>

text \<open>
  Modelled from the spec: the accelerator itself is hardware and not part of the
  sources. The specification describes it as the unit that performs one Montgomery
  multiplication per invocation, \<open>X * Y * R\<^sup>-\<^sup>1 mod N\<close> with \<open>R = 2^(32 * width)\<close>, behind
  the register layout of section 6: three operand banks, the register for \<open>n'\<close>, a
  control register (write 1 to start), a status register (bit 0 = done) and a result
  bank.

  Division by 2 modulo an odd \<open>n\<close>, and with it the product \<open>x * y * 2^(-32 * w) mod n\<close>:
\<close>

definition halve_mod :: "nat \<Rightarrow> nat \<Rightarrow> nat" where
  "halve_mod n x = (if even x then x div 2 else (x + n) div 2)"

definition mont_product :: "nat \<Rightarrow> nat \<Rightarrow> nat \<Rightarrow> nat \<Rightarrow> nat" where
  "mont_product w n x y = (halve_mod n ^^ (32 * w)) ((x * y) mod n)"

text \<open>The \<open>k\<close> little-endian words of a number.\<close>

fun nat_to_words :: "nat \<Rightarrow> nat \<Rightarrow> u32 list" where
  "nat_to_words 0 v = []"
| "nat_to_words (Suc k) v = of_nat (v mod 2 ^ 32) # nat_to_words k (v div 2 ^ 32)"

text \<open>
  The state of the device: the four register banks, each of \<open>width\<close> words, the register
  for \<open>n'\<close> (this model of the arithmetic does not need its value) and the number of status
  reads that still find the device busy.
\<close>

record accel =
  bank_a :: "u32 list"
  bank_b :: "u32 list"
  bank_n :: "u32 list"
  bank_res :: "u32 list"
  reg_nprime :: u32
  busy :: nat

text \<open>
  A write to an operand bank stores the word; a write of 1 to the control register
  computes the product of the operands into the result bank and makes the device
  busy for the next \<open>lat\<close> status reads. A read of the status register returns 0 while
  the device is busy and 1 afterwards; a read of the result bank returns the word.
\<close>

definition accel_out :: "nat \<Rightarrow> nat \<Rightarrow> u32 \<Rightarrow> u32 \<Rightarrow> u32 \<Rightarrow> accel \<Rightarrow> accel" where
  "accel_out w lat base addr v st =
     (let off = unat (addr - base) in
      if off < 0x200 then st\<lparr>bank_a := (bank_a st)[off div 4 := v]\<rparr>
      else if off < 0x400 then st\<lparr>bank_b := (bank_b st)[(off - 0x200) div 4 := v]\<rparr>
      else if off < 0x600 then st\<lparr>bank_n := (bank_n st)[(off - 0x400) div 4 := v]\<rparr>
      else if off = 0x800 then st\<lparr>reg_nprime := v\<rparr>
      else if off = 0x804 \<and> v AND 1 \<noteq> 0 then
        st\<lparr>bank_res := nat_to_words w
               (mont_product w (bn_value w (bank_n st)) (bn_value w (bank_a st)) (bn_value w (bank_b st))),
           busy := lat\<rparr>
      else st)"

definition accel_in :: "u32 \<Rightarrow> u32 \<Rightarrow> accel \<Rightarrow> u32 \<times> accel" where
  "accel_in base addr st =
     (let off = unat (addr - base) in
      if off = 0x808 then (if busy st = 0 then (1, st) else (0, st\<lparr>busy := busy st - 1\<rparr>))
      else if 0x600 \<le> off \<and> off < 0x800 \<and> (off - 0x600) div 4 < length (bank_res st)
        then (bank_res st ! ((off - 0x600) div 4), st)
      else (0, st))"

definition accel_dev :: "nat \<Rightarrow> nat \<Rightarrow> u32 \<Rightarrow> accel device" where
  "accel_dev w lat base = \<lparr>dev_out = accel_out w lat base, dev_in = accel_in base\<rparr>"

definition accel_init :: "nat \<Rightarrow> accel" where
  "accel_init w = \<lparr>bank_a = replicate w 0, bank_b = replicate w 0, bank_n = replicate w 0,
                   bank_res = replicate w 0, reg_nprime = 0, busy = 0\<rparr>"

definition accel_wf :: "nat \<Rightarrow> accel \<Rightarrow> bool" where
  "accel_wf w st \<longleftrightarrow> length (bank_a st) = w \<and> length (bank_b st) = w \<and> length (bank_n st) = w"

section \<open>The engine of the specification\<close>

text \<open>
  This section follows the words of the specification, not the source. Section 4.4
  gives one algorithm for both variants, over a multiply primitive \<open>mul\<close> that may fail:
  \<^verbatim>\<open>x = mul(ONE, R2); a = mul(base, R2);
  for bit in 0 .. expBits-1: if exponent has bit set: x = mul(x, a); a = mul(a, a)
  result = mul(x, ONE)\<close>
  \<open>montgomery_engine_spec\<close> is that algorithm; \<open>plain_engine_spec\<close> is the same loop
  started from \<open>x = ONE\<close> and \<open>a = base\<close>, with \<open>x\<close> as the result. A BigNum is here a
  list of exactly \<open>width\<close> words, and \<open>modMul\<close> is the software multiply on such values.
\<close>

fun engine_loop_spec :: "('bn \<Rightarrow> 'bn \<Rightarrow> 'bn option) \<Rightarrow> bool list \<Rightarrow> 'bn \<Rightarrow> 'bn \<Rightarrow> 'bn option" where
  "engine_loop_spec mul [] x a = Some x"
| "engine_loop_spec mul (bt # bits) x a =
     (case (if bt then mul x a else Some x) of
        None \<Rightarrow> None
      | Some x' \<Rightarrow> (case mul a a of None \<Rightarrow> None | Some a' \<Rightarrow> engine_loop_spec mul bits x' a'))"

definition montgomery_engine_spec ::
  "('bn \<Rightarrow> 'bn \<Rightarrow> 'bn option) \<Rightarrow> 'bn \<Rightarrow> 'bn \<Rightarrow> 'bn \<Rightarrow> bool list \<Rightarrow> 'bn option" where
  "montgomery_engine_spec mul ONE R2 base bits =
     (case mul ONE R2 of
        None \<Rightarrow> None
      | Some x \<Rightarrow>
          (case mul base R2 of
             None \<Rightarrow> None
           | Some a \<Rightarrow>
               (case engine_loop_spec mul bits x a of
                  None \<Rightarrow> None
                | Some x' \<Rightarrow> mul x' ONE)))"

definition plain_engine_spec ::
  "('bn \<Rightarrow> 'bn \<Rightarrow> 'bn option) \<Rightarrow> 'bn \<Rightarrow> 'bn \<Rightarrow> bool list \<Rightarrow> 'bn option" where
  "plain_engine_spec mul ONE base bits = engine_loop_spec mul bits ONE base"

definition modMul :: "u32 list \<Rightarrow> nat \<Rightarrow> u32 list \<Rightarrow> u32 list \<Rightarrow> u32 list option" where
  "modMul N width A B = modmul_sw A B N (replicate width 0) width"

definition exp_bits_list :: "u32 \<Rightarrow> int \<Rightarrow> bool list" where
  "exp_bits_list exp exp_bits = map (\<lambda>b. drop_bit b exp AND 1 \<noteq> 0) [0..<nat exp_bits]"

definition ONE_words :: "nat \<Rightarrow> u32 list" where
  "ONE_words width = 1 # replicate (width - 1) 0"

section \<open>Notions of the statements and proofs\<close>

subsection \<open>Values and loop invariants of the software multiply\<close>

text \<open>
  The number that the double-width buffer \<open>tmp\<close> of \<open>modmul_sw\<close> stands for, each 64-bit cell
  a digit of weight \<open>2^32\<close>.
\<close>

definition tmp_val :: "u64 list \<Rightarrow> nat" where
  "tmp_val tmp = words_val (map unat tmp)"

text \<open>
  The invariant of the inner product loop after \<open>j\<close> steps of row \<open>i\<close>: every cell is below
  \<open>2^32\<close>, so is the carry, and buffer plus carry have grown by \<open>A[i]\<close> times the low \<open>j\<close>
  words of \<open>B\<close>, shifted by \<open>i\<close> words.
\<close>

definition mac_inv :: "u32 list \<Rightarrow> u32 list \<Rightarrow> nat \<Rightarrow> u64 list \<Rightarrow> nat \<Rightarrow> u64 list \<times> u64 \<Rightarrow> bool" where
  "mac_inv A B i tmp j st \<longleftrightarrow>
     length (fst st) = length tmp
     \<and> (\<forall>x\<in>set (fst st). unat x < 2 ^ 32)
     \<and> unat (snd st) < 2 ^ 32
     \<and> tmp_val (fst st) + unat (snd st) * 2 ^ (32 * (i + j))
           = tmp_val tmp + unat (A ! i) * bn_value j B * 2 ^ (32 * i)
     \<and> (\<forall>k. i + j \<le> k \<longrightarrow> fst st ! k = tmp ! k)"

text \<open>
  The invariant of the outer product loop after \<open>i\<close> rows: the buffer holds the product of
  the low \<open>i\<close> words of \<open>A\<close> and the \<open>n\<close> words of \<open>B\<close>, and the cells from \<open>i + n\<close> on are 0.
\<close>

definition row_inv :: "u32 list \<Rightarrow> u32 list \<Rightarrow> nat \<Rightarrow> nat \<Rightarrow> u64 list \<Rightarrow> bool" where
  "row_inv A B n i tmp \<longleftrightarrow>
     length tmp = 2 * n
     \<and> (\<forall>x\<in>set tmp. unat x < 2 ^ 32)
     \<and> tmp_val tmp = bn_value i A * bn_value n B
     \<and> (\<forall>k. i + n \<le> k \<longrightarrow> k < 2 * n \<longrightarrow> tmp ! k = 0)"

text \<open>
  The invariant of the subtraction loop after \<open>j\<close> words, with the borrow.
\<close>

definition sub_inv :: "u32 list \<Rightarrow> u32 list \<Rightarrow> nat \<Rightarrow> u32 list \<times> u64 \<Rightarrow> bool" where
  "sub_inv R N j st \<longleftrightarrow>
     length (fst st) = length R
     \<and> unat (snd st) \<le> 1
     \<and> bn_value j (fst st) + bn_value j N = bn_value j R + unat (snd st) * 2 ^ (32 * j)
     \<and> drop j (fst st) = drop j R"

text \<open>
  The value the reduction loop stops at, from a start value \<open>r\<close> with modulus \<open>m\<close>: the
  remainder, except that a non-zero multiple of \<open>m\<close> stops at \<open>m\<close>, since the loop goes on
  only while the value is strictly greater.
\<close>

definition reduce_val :: "nat \<Rightarrow> nat \<Rightarrow> nat" where
  "reduce_val r m = (if r \<noteq> 0 \<and> r mod m = 0 then m else r mod m)"

subsection \<open>Traces of the accelerator port\<close>

text \<open>
  The state of the device after \<open>k\<close> reads of the status register.
\<close>

fun status_state :: "'d device \<Rightarrow> u32 \<Rightarrow> 'd \<Rightarrow> nat \<Rightarrow> 'd" where
  "status_state dev base_addr d 0 = d"
| "status_state dev base_addr d (Suc k) =
     status_state dev base_addr (snd (dev_in dev (REG_STATUS base_addr) d)) k"

text \<open>
  The value that read number \<open>k\<close> of the status register returns, counted from 0.
\<close>

definition status_seq :: "'d device \<Rightarrow> u32 \<Rightarrow> 'd \<Rightarrow> nat \<Rightarrow> u32" where
  "status_seq dev base_addr d k =
     fst (dev_in dev (REG_STATUS base_addr) (status_state dev base_addr d k))"

text \<open>
  The first \<open>n\<close> status reads as events of the trace.
\<close>

definition status_reads :: "'d device \<Rightarrow> u32 \<Rightarrow> 'd \<Rightarrow> nat \<Rightarrow> io_event list" where
  "status_reads dev base_addr d n =
     map (\<lambda>k. In32 (REG_STATUS base_addr) (status_seq dev base_addr d k)) [0..<n]"

text \<open>
  The writes of one invocation, up to the start command: the operand words, \<open>n'\<close> and the
  control register.
\<close>

definition start_events :: "u32 \<Rightarrow> nat \<Rightarrow> u32 list \<Rightarrow> u32 list \<Rightarrow> u32 list \<Rightarrow> u32 \<Rightarrow> io_event list" where
  "start_events b n A B N nprime =
     concat (map (\<lambda>i. [Out32 (REG_A b i) (A ! i), Out32 (REG_B b i) (B ! i), Out32 (REG_N b i) (N ! i)]) [0..<n])
     @ [Out32 (REG_NPRIME b) nprime, Out32 (REG_CONTROL b) 1]"

text \<open>
  The addresses read on a trace, in order.
\<close>

fun read_addrs :: "io_event list \<Rightarrow> u32 list" where
  "read_addrs [] = []"
| "read_addrs (In32 a v # es) = a # read_addrs es"
| "read_addrs (Out32 a v # es) = read_addrs es"

text \<open>
  The number of start commands on a trace: writes of 1 to the control register.
\<close>

definition n_start :: "u32 \<Rightarrow> io_event list \<Rightarrow> nat" where
  "n_start b evs = length (filter (\<lambda>e. e = Out32 (REG_CONTROL b) 1) evs)"

text \<open>
  A status read that shows bit 0 set.
\<close>

fun is_done :: "u32 \<Rightarrow> io_event \<Rightarrow> bool" where
  "is_done b (In32 a v) = (a = REG_STATUS b \<and> v AND 1 \<noteq> 0)"
| "is_done b (Out32 a v) = False"

text \<open>
  The number of status reads on a trace that show bit 0 set.
\<close>

definition n_done :: "u32 \<Rightarrow> io_event list \<Rightarrow> nat" where
  "n_done b evs = length (filter (is_done b) evs)"

text \<open>
  What the trace of a call says about its outcome: on success every invocation that was
  started has seen the done bit; on failure exactly one has not, and the trace ends with
  its start command followed by \<open>HW_DONE_TIMEOUT + 1\<close> status reads with bit 0 clear.
\<close>

definition trace_inv :: "u32 \<Rightarrow> bool \<Rightarrow> io_event list \<Rightarrow> bool" where
  "trace_inv b ok evs \<longleftrightarrow>
     (ok \<longrightarrow> n_done b evs = n_start b evs)
     \<and> (\<not> ok \<longrightarrow> n_start b evs = Suc (n_done b evs)
           \<and> (\<exists>pre vs. evs = pre @ Out32 (REG_CONTROL b) 1 # map (In32 (REG_STATUS b)) vs
                 \<and> length vs = HW_DONE_TIMEOUT + 1 \<and> (\<forall>v\<in>set vs. v AND 1 = 0)))"

subsection \<open>Two devices without arithmetic\<close>

text \<open>
  A device that never sets the done bit: every register reads 0.
\<close>

definition dead_dev :: "unit device" where
  "dead_dev = \<lparr>dev_out = (\<lambda>a v d. d), dev_in = (\<lambda>a d. (0, d))\<rparr>"

text \<open>
  A device that always shows the done bit: every register reads 1.
\<close>

definition ready_dev :: "unit device" where
  "ready_dev = \<lparr>dev_out = (\<lambda>a v d. d), dev_in = (\<lambda>a d. (1, d))\<rparr>"

text \<open>
  A device that counts the reads made of it and shows the done bit from read number
  \<open>HW_DONE_TIMEOUT\<close> on, counted from 0: clear on the first \<open>HW_DONE_TIMEOUT\<close> reads, set
  on the next.
\<close>

definition late_dev :: "nat device" where
  "late_dev = \<lparr>dev_out = (\<lambda>a v d. d),
               dev_in = (\<lambda>a d. (if HW_DONE_TIMEOUT \<le> d then 1 else 0, Suc d))\<rparr>"

section \<open>The modular inverse\<close>

text \<open>
  The invariant of the extended Euclidean loop: \<open>r\<close> and \<open>new_r\<close> are remainders of
  \<open>2 ^ 32\<close> and \<open>n\<close> with \<open>t * n\<close> and \<open>new_t * n\<close> congruent to them modulo \<open>2 ^ 32\<close>,
  the two coefficients have opposite signs, and the cross product
  \<open>\<bar>new_t\<bar> * r + \<bar>t\<bar> * new_r\<close> stays \<open>2 ^ 32\<close>, which bounds every intermediate value far
  inside the 64-bit range.
\<close>

lemma wrap64_id: "- (2 ^ 63) \<le> k \<Longrightarrow> k < 2 ^ 63 \<Longrightarrow> wrap64 k = k"
  by (simp add: wrap64_def signed_take_bit_int_eq_self)

lemma modinv32_loop_inverse:
  fixes n :: int
  assumes "0 \<le> new_r" "new_r < r" "r \<le> 2 ^ 32"
    and "2 ^ 32 dvd (t * n - r)" "2 ^ 32 dvd (new_t * n - new_r)"
    and "gcd r new_r = 1" "\<bar>t\<bar> \<le> 2 ^ 32"
    and "(t \<le> 0 \<and> 0 \<le> new_t \<and> new_t * r - t * new_r = 2 ^ 32)
         \<or> (0 \<le> t \<and> new_t \<le> 0 \<and> t * new_r - new_t * r = 2 ^ 32)"
  shows "\<exists>t'. modinv32_loop t new_t r new_r = Some t' \<and> 2 ^ 32 dvd (t' * n - 1) \<and> \<bar>t'\<bar> \<le> 2 ^ 32"
  using assms
proof (induction "nat new_r" arbitrary: t new_t r new_r rule: less_induct)
  case less
  show ?case
  proof (cases "new_r = 0")
    case True
    with less.prems have "r = 1" by simp
    with True less.prems show ?thesis
      by (simp add: modinv32_loop.simps)
  next
    case False
    with less.prems have pos: "0 < new_r" "0 < r" by simp_all
    define q where "q = r div new_r"
    define nt where "nt = t - q * new_t"
    define nr where "nr = r - q * new_r"
    have q0: "0 \<le> q" using pos by (simp add: q_def pos_imp_zdiv_nonneg_iff)
    have sd: "r sdiv new_r = q" using pos by (simp add: signed_divide_int_def q_def)
    have nr_mod: "nr = r mod new_r"
      by (simp add: nr_def q_def minus_mult_div_eq_mod mult.commute)
    have nr_rng: "0 \<le> nr" "nr < new_r" using pos by (simp_all add: nr_mod)
    have qnr: "0 \<le> q * new_r" "q * new_r \<le> r"
      using q0 pos nr_rng by (simp_all add: nr_def)
    have sgn: "(new_t \<le> 0 \<and> 0 \<le> nt \<and> nt * new_r - new_t * nr = 2 ^ 32)
         \<or> (0 \<le> new_t \<and> nt \<le> 0 \<and> new_t * nr - nt * new_r = 2 ^ 32)"
      using less.prems(8)
    proof
      assume a: "t \<le> 0 \<and> 0 \<le> new_t \<and> new_t * r - t * new_r = 2 ^ 32"
      then have "0 \<le> q * new_t" using q0 by simp
      with a have "nt \<le> 0" by (simp add: nt_def)
      moreover have "new_t * nr - nt * new_r = new_t * r - t * new_r"
        by (simp add: nt_def nr_def algebra_simps)
      ultimately show ?thesis using a by simp
    next
      assume a: "0 \<le> t \<and> new_t \<le> 0 \<and> t * new_r - new_t * r = 2 ^ 32"
      then have "q * new_t \<le> 0" using q0 by (simp add: mult_nonneg_nonpos)
      with a have "0 \<le> nt" by (simp add: nt_def)
      moreover have "nt * new_r - new_t * nr = t * new_r - new_t * r"
        by (simp add: nt_def nr_def algebra_simps)
      ultimately show ?thesis using a by simp
    qed
    have nt_abs: "\<bar>nt\<bar> \<le> 2 ^ 32"
    proof -
      from sgn have "\<bar>nt\<bar> * new_r \<le> 2 ^ 32"
      proof
        assume a: "new_t \<le> 0 \<and> 0 \<le> nt \<and> nt * new_r - new_t * nr = 2 ^ 32"
        then have "new_t * nr \<le> 0" using nr_rng by (simp add: mult_nonpos_nonneg)
        with a show ?thesis by simp
      next
        assume a: "0 \<le> new_t \<and> nt \<le> 0 \<and> new_t * nr - nt * new_r = 2 ^ 32"
        then have "0 \<le> new_t * nr" using nr_rng by simp
        moreover from a have "\<bar>nt\<bar> * new_r = - (nt * new_r)" by simp
        ultimately show ?thesis using a by linarith
      qed
      moreover have "\<bar>nt\<bar> * 1 \<le> \<bar>nt\<bar> * new_r"
        using pos by (intro mult_left_mono) simp_all
      ultimately show ?thesis by simp
    qed
    have newt_abs: "\<bar>new_t\<bar> \<le> 2 ^ 32"
    proof -
      from less.prems(8) have "\<bar>new_t\<bar> * r \<le> 2 ^ 32"
      proof
        assume a: "t \<le> 0 \<and> 0 \<le> new_t \<and> new_t * r - t * new_r = 2 ^ 32"
        then have "t * new_r \<le> 0" using pos by (simp add: mult_nonpos_nonneg)
        with a show ?thesis by simp
      next
        assume a: "0 \<le> t \<and> new_t \<le> 0 \<and> t * new_r - new_t * r = 2 ^ 32"
        then have "0 \<le> t * new_r" using pos by simp
        moreover from a have "\<bar>new_t\<bar> * r = - (new_t * r)" by simp
        ultimately show ?thesis using a by linarith
      qed
      moreover have "\<bar>new_t\<bar> * 1 \<le> \<bar>new_t\<bar> * r"
        using pos by (intro mult_left_mono) simp_all
      ultimately show ?thesis by simp
    qed
    have qnt_abs: "\<bar>q * new_t\<bar> \<le> 2 ^ 32"
    proof -
      have "\<bar>q * new_t\<bar> \<le> \<bar>nt\<bar>"
        using less.prems(8)
      proof
        assume a: "t \<le> 0 \<and> 0 \<le> new_t \<and> new_t * r - t * new_r = 2 ^ 32"
        then have "0 \<le> q * new_t" using q0 by simp
        with a show ?thesis by (simp add: nt_def)
      next
        assume a: "0 \<le> t \<and> new_t \<le> 0 \<and> t * new_r - new_t * r = 2 ^ 32"
        then have "q * new_t \<le> 0" using q0 by (simp add: mult_nonneg_nonpos)
        with a show ?thesis by (simp add: nt_def)
      qed
      with nt_abs show ?thesis by simp
    qed
    have w1: "wrap64 (q * new_t) = q * new_t"
      using qnt_abs by (intro wrap64_id) (simp_all add: abs_le_iff)
    have w2: "wrap64 (t - q * new_t) = nt"
      using nt_abs unfolding nt_def [symmetric] by (intro wrap64_id) (simp_all add: abs_le_iff)
    have w3: "wrap64 (q * new_r) = q * new_r"
      using qnr less.prems(3) by (intro wrap64_id) simp_all
    have w4: "wrap64 (r - q * new_r) = nr"
      using nr_rng less.prems(2,3) unfolding nr_def [symmetric] by (intro wrap64_id) simp_all
    have step: "modinv32_loop t new_t r new_r = modinv32_loop new_t nt new_r nr"
      using False by (subst modinv32_loop.simps) (simp add: sd w1 w2 w3 w4 Let_def)
    have d1: "2 ^ 32 dvd (nt * n - nr)"
    proof -
      have "nt * n - nr = (t * n - r) - q * (new_t * n - new_r)"
        by (simp add: nt_def nr_def algebra_simps)
      then show ?thesis using less.prems(4,5) by (simp add: dvd_diff)
    qed
    have g: "gcd new_r nr = 1"
      using less.prems(6) by (simp add: nr_mod gcd.commute gcd_red_int [symmetric])
    have "\<exists>t'. modinv32_loop new_t nt new_r nr = Some t' \<and> 2 ^ 32 dvd (t' * n - 1) \<and> \<bar>t'\<bar> \<le> 2 ^ 32"
    proof (rule less.hyps)
      show "nat nr < nat new_r" using nr_rng by simp
    qed (use nr_rng less.prems d1 g newt_abs sgn in simp_all)
    with step show ?thesis by simp
  qed
qed

lemma modinv32_correct:
  assumes "odd (unat n)"
  shows "\<exists>v. modinv32 n = Some v \<and> v * n = 1 \<and> (unat v * unat n) mod 2 ^ 32 = 1"
proof -
  have odd_n: "odd (uint n)" using assms by (simp only: uint_nat even_of_nat not_False_eq_True)
  have "coprime (2 :: int) (uint n)"
    using odd_n by (simp add: coprime_left_2_iff_odd)
  then have cop: "coprime (2 ^ 32 :: int) (uint n)"
    unfolding coprime_power_left_iff by blast
  have lt: "uint n < 2 ^ 32" using uint_bounded [of n] by simp
  have "\<exists>t'. modinv32_loop 0 1 (2 ^ 32) (uint n) = Some t' \<and> 2 ^ 32 dvd (t' * uint n - 1) \<and> \<bar>t'\<bar> \<le> 2 ^ 32"
    using cop lt by (intro modinv32_loop_inverse) (simp_all add: coprime_iff_gcd_eq_1)
  then obtain t where t: "modinv32_loop 0 1 (2 ^ 32) (uint n) = Some t"
    "2 ^ 32 dvd (t * uint n - 1)" "\<bar>t\<bar> \<le> 2 ^ 32" by blast
  define v :: u32 where "v = word_of_int (if t < 0 then wrap64 (t + 2 ^ 32) else t)"
  have w: "t < 0 \<Longrightarrow> wrap64 (t + 2 ^ 32) = t + 2 ^ 32"
    using t(3) by (intro wrap64_id) (simp_all add: abs_le_iff)
  have v_eq: "v = word_of_int t"
  proof (cases "t < 0")
    case True
    then have "v = word_of_int (t + 2 ^ 32)"
      unfolding v_def by (simp only: w if_True)
    also have "\<dots> = word_of_int t + (2 ^ 32 :: u32)"
      by simp
    also have "\<dots> = word_of_int t"
      by simp
    finally show ?thesis .
  next
    case False
    then show ?thesis by (simp add: v_def)
  qed
  have "(word_of_int (t * uint n - 1) :: u32) = 0"
    using t(2) by (simp add: word_of_int_eq_0_iff del: of_int_diff of_int_mult)
  then have one: "v * n = 1"
    by (simp add: v_eq)
  then have "unat (v * n) = 1" by simp
  then have "(unat v * unat n) mod 2 ^ 32 = 1"
    by (simp add: unat_word_ariths)
  with one t(1) show ?thesis
    by (simp add: modinv32_def v_def)
qed

text \<open>
  C6. For every odd 32-bit \<open>n\<close>, \<open>modinv32 n\<close> returns, and the 32-bit value \<open>v\<close> it returns
  satisfies \<open>v * n = 1\<close> in arithmetic modulo \<open>2 ^ 32\<close>.
\<close>

theorem modinv32_inverse:
  assumes "odd (unat n)"
  shows "\<exists>v. modinv32 n = Some v \<and> v * n = 1 \<and> (unat v * unat n) mod 2 ^ 32 = 1"
  using assms by (rule modinv32_correct)

theorem modinv32_inverse_witness:
  "odd (unat (3233 :: u32))
   \<and> (\<exists>v. modinv32 3233 = Some v \<and> v * 3233 = 1 \<and> (unat v * unat (3233 :: u32)) mod 2 ^ 32 = 1)"
  using modinv32_inverse [of 3233] by simp

section \<open>Values of word sequences\<close>

lemma words_val_append:
  "words_val (xs @ ys) = words_val xs + 2 ^ (32 * length xs) * words_val ys"
  by (induction xs) (simp_all add: algebra_simps power_add)

lemma words_val_bound:
  "\<forall>x\<in>set xs. x < 2 ^ 32 \<Longrightarrow> words_val xs < 2 ^ (32 * length xs)"
proof (induction xs)
  case Nil
  then show ?case by simp
next
  case (Cons x xs)
  then have "x < 2 ^ 32" "words_val xs + 1 \<le> 2 ^ (32 * length xs)" by simp_all
  then have "x + 2 ^ 32 * words_val xs + 2 ^ 32 \<le> 2 ^ 32 + 2 ^ 32 * words_val xs + 2 ^ 32"
    "2 ^ 32 * (words_val xs + 1) \<le> (2 ^ 32 :: nat) * 2 ^ (32 * length xs)"
    by (simp_all del: One_nat_def)
  then have "x + 2 ^ 32 * words_val xs < 2 ^ 32 * 2 ^ (32 * length xs)"
    using \<open>x < 2 ^ 32\<close> by simp
  then show ?case by (simp add: power_add)
qed

lemma words_val_update:
  "k < length xs \<Longrightarrow>
     words_val (xs[k := v]) + xs ! k * 2 ^ (32 * k) = words_val xs + v * 2 ^ (32 * k)"
proof (induction xs arbitrary: k)
  case Nil
  then show ?case by simp
next
  case (Cons x xs)
  show ?case
  proof (cases k)
    case 0
    then show ?thesis by simp
  next
    case (Suc j)
    with Cons.prems have "j < length xs" by simp
    from Cons.IH [OF this]
    have "2 ^ 32 * (words_val (xs[j := v]) + xs ! j * 2 ^ (32 * j))
            = 2 ^ 32 * (words_val xs + v * 2 ^ (32 * j))"
      by simp
    then show ?thesis
      using Suc by (simp add: algebra_simps power_add)
  qed
qed

lemma words_val_take_Suc:
  "k < length xs \<Longrightarrow> words_val (take (Suc k) xs) = words_val (take k xs) + xs ! k * 2 ^ (32 * k)"
  by (simp add: take_Suc_conv_app_nth words_val_append)

lemma words_val_take_mod:
  assumes "\<forall>x\<in>set xs. x < 2 ^ 32"
  shows "words_val (take k xs) = words_val xs mod 2 ^ (32 * k)"
proof (cases "k \<le> length xs")
  case True
  have b: "words_val (take k xs) < 2 ^ (32 * length (take k xs))"
    using assms by (intro words_val_bound) (auto dest: in_set_takeD)
  have "words_val xs = words_val (take k xs @ drop k xs)" by simp
  also have "\<dots> = words_val (take k xs) + 2 ^ (32 * k) * words_val (drop k xs)"
    using True by (simp only: words_val_append) simp
  finally show ?thesis using b True by simp
next
  case False
  have "words_val xs < 2 ^ (32 * length xs)" using assms by (rule words_val_bound)
  also have "\<dots> \<le> 2 ^ (32 * k)" using False by (intro power_increasing) simp_all
  finally show ?thesis using False by simp
qed

lemma words_val_replicate_zero: "words_val (replicate n 0) = 0"
  by (induction n) simp_all

lemma unat_u32_less: "unat (x :: u32) < 2 ^ 32"
  using unsigned_less [of x] by simp

lemma unat_u32_less_u64: "unat (x :: u32) < 2 ^ 64"
  using unat_u32_less [of x] by simp

lemma bn_value_bound: "bn_value w A < 2 ^ (32 * w)"
proof -
  have "words_val (map unat (take w A)) < 2 ^ (32 * length (map unat (take w A)))"
    by (intro words_val_bound) (use unat_u32_less in auto)
  also have "\<dots> \<le> 2 ^ (32 * w)" by (intro power_increasing) simp_all
  finally show ?thesis by (simp add: bn_value_def)
qed

lemma bn_value_Suc:
  "w < length A \<Longrightarrow> bn_value (Suc w) A = bn_value w A + unat (A ! w) * 2 ^ (32 * w)"
  by (simp add: bn_value_def take_Suc_conv_app_nth words_val_append)

lemma bn_value_0: "bn_value 0 A = 0"
  by (simp add: bn_value_def)

lemma bn_value_cong: "take w A = take w B \<Longrightarrow> bn_value w A = bn_value w B"
  by (simp add: bn_value_def)

section \<open>The product loop\<close>

lemma unat_up: "unat (ucast (a :: u32) :: u64) = unat a"
proof -
  have "unat a < 2 ^ 64" using unat_u32_less [of a] by simp
  then show ?thesis
    by (simp add: unsigned_ucast_eq take_bit_nat_eq_self)
qed

lemma unat_down: "unat (ucast (t :: u64) :: u32) = unat t mod 2 ^ 32"
  by (simp add: unsigned_ucast_eq take_bit_eq_mod)

lemma unat_hi: "unat (drop_bit 32 (t :: u64)) = unat t div 2 ^ 32"
  unfolding unat_drop_bit_eq by (simp add: drop_bit_eq_div)

lemma mac_word:
  fixes tw c :: u64 and a b :: u32
  assumes "unat tw < 2 ^ 32" "unat c < 2 ^ 32"
  shows "unat (tw + ucast a * ucast b + c) = unat tw + unat a * unat b + unat c"
proof -
  have a: "unat a \<le> 2 ^ 32 - 1" "unat b \<le> 2 ^ 32 - 1"
    using unat_u32_less [of a] unat_u32_less [of b] by simp_all
  then have "unat a * unat b \<le> (2 ^ 32 - 1) * (2 ^ 32 - 1)"
    by (rule mult_mono) simp_all
  then have ab: "unat a * unat b \<le> 18446744065119617025" by simp
  have "unat (ucast a :: u64) * unat (ucast b :: u64) < 2 ^ LENGTH(64)"
    using ab by (simp add: unat_up)
  then have 1: "unat (ucast a * ucast b :: u64) = unat a * unat b"
    by (simp only: unat_mult_lem [THEN iffD1] unat_up)
  have "unat tw + unat (ucast a * ucast b :: u64) < 2 ^ LENGTH(64)"
    using ab assms(1) by (simp add: 1)
  then have 2: "unat (tw + ucast a * ucast b) = unat tw + unat a * unat b"
    by (simp only: unat_add_lem [THEN iffD1] 1)
  have "unat (tw + ucast a * ucast b) + unat c < 2 ^ LENGTH(64)"
    using ab assms by (simp add: 2)
  then show ?thesis
    by (simp only: unat_add_lem [THEN iffD1] 2)
qed

lemma sub_word:
  fixes r n :: u32 and bw :: u64
  assumes "unat bw \<le> 1"
  defines "t \<equiv> (ucast r :: u64) - ucast n - bw"
  shows "unat (drop_bit 63 t AND 1) \<le> 1"
    and "unat (ucast t :: u32) + unat n + unat bw = unat r + unat (drop_bit 63 t AND 1) * 2 ^ 32"
proof -
  define x where "x = uint r - uint n - uint bw"
  define w where "w = drop_bit 63 t"
  have "int (unat bw) \<le> 1" using assms(1) by linarith
  then have b: "0 \<le> uint bw" "uint bw \<le> 1"
    by (simp_all only: uint_nat of_nat_0_le_iff)
  have u: "0 \<le> uint r" "uint r < 2 ^ 32" "0 \<le> uint n" "uint n < 2 ^ 32"
    using uint_bounded [of r] uint_bounded [of n] by simp_all
  have rng: "- (2 ^ 32) \<le> x" "x < 2 ^ 32"
    unfolding x_def using u b by linarith+
  have up: "uint (ucast v :: u64) = uint v" for v :: u32
    using uint_bounded [of v] by (simp add: unsigned_ucast_eq take_bit_int_eq_self)
  have ut: "uint t = x mod 2 ^ 64"
    unfolding t_def x_def
    by (simp add: uint_word_ariths up mod_diff_left_eq)
  have uw: "uint w = uint t div 2 ^ 63"
  proof -
    have "take_bit 64 (uint t) = uint t"
      using uint_bounded [of t] by (simp add: take_bit_int_eq_self)
    then show ?thesis
      unfolding w_def unsigned_drop_bit_eq by (simp add: drop_bit_eq_div)
  qed
  have lo: "uint (ucast t :: u32) = uint t mod 2 ^ 32"
    by (simp add: unsigned_ucast_eq take_bit_eq_mod)
  have main: "(w = 0 \<or> w = 1) \<and> uint (ucast t :: u32) + uint n + uint bw = uint r + uint w * 2 ^ 32"
  proof (cases "0 \<le> x")
    case True
    with rng have t: "uint t = x" by (simp add: ut)
    with rng True have "uint w = 0" by (simp add: uw)
    then have w0: "w = 0" by (simp add: uint_0_iff)
    have "uint (ucast t :: u32) = x" using rng True by (simp add: lo t)
    with w0 show ?thesis by (simp add: x_def)
  next
    case False
    have "(x + 2 ^ 64) mod 2 ^ 64 = x + 2 ^ 64"
      using rng False by (intro mod_pos_pos_trivial) simp_all
    then have t: "uint t = x + 2 ^ 64" by (simp add: ut)
    have "(x + 2 ^ 64) div 2 ^ 63 = 1"
      using rng False by (intro int_div_pos_eq [where r = "x + 2 ^ 63"]) simp_all
    then have "uint w = 1" by (simp add: uw t)
    then have w1: "w = 1" by (metis uint_1_eq word_uint_eq_iff)
    have "(x + 2 ^ 64) mod 2 ^ 32 = x + 2 ^ 32"
      using rng False by (intro int_mod_pos_eq [where q = "2 ^ 32 - 1"]) simp_all
    then have "uint (ucast t :: u32) = x + 2 ^ 32" by (simp add: lo t)
    with w1 show ?thesis by (simp add: x_def)
  qed
  then have w01: "w AND 1 = w" by auto
  from main show "unat (drop_bit 63 t AND 1) \<le> 1"
    unfolding w_def [symmetric] w01 by auto
  from main have "uint (ucast t :: u32) + uint n + uint bw = uint r + uint w * 2 ^ 32"
    by simp
  then have "int (unat (ucast t :: u32) + unat n + unat bw) = int (unat r + unat w * 2 ^ 32)"
    by simp
  then have "unat (ucast t :: u32) + unat n + unat bw = unat r + unat w * 2 ^ 32"
    by (simp only: of_nat_eq_iff)
  then show "unat (ucast t :: u32) + unat n + unat bw = unat r + unat (drop_bit 63 t AND 1) * 2 ^ 32"
    unfolding w_def [symmetric] w01 .
qed

lemma tmp_val_update:
  "k < length tmp \<Longrightarrow>
     tmp_val (tmp[k := v]) + unat (tmp ! k) * 2 ^ (32 * k) = tmp_val tmp + unat v * 2 ^ (32 * k)"
  using words_val_update [of k "map unat tmp" "unat v"]
  by (simp add: tmp_val_def map_update)

lemma mac_inv_step:
  assumes inv: "mac_inv A B i tmp j st"
    and j: "i + j < length tmp" "j < length B"
  shows "mac_inv A B i tmp (Suc j) (mac_step A B i j st)"
proof -
  obtain t1 c1 where st: "st = (t1, c1)" by (cases st)
  from inv st have len: "length t1 = length tmp"
    and small: "\<forall>x\<in>set t1. unat x < 2 ^ 32"
    and c1: "unat c1 < 2 ^ 32"
    and val: "tmp_val t1 + unat c1 * 2 ^ (32 * (i + j))
                = tmp_val tmp + unat (A ! i) * bn_value j B * 2 ^ (32 * i)"
    and rest: "\<forall>k. i + j \<le> k \<longrightarrow> t1 ! k = tmp ! k"
    by (simp_all add: mac_inv_def)
  define x where "x = unat (t1 ! (i + j))"
  define a where "a = unat (A ! i)"
  define b where "b = unat (B ! j)"
  define t where "t = t1 ! (i + j) + ucast (A ! i) * ucast (B ! j) + c1"
  define W :: nat where "W = 2 ^ (32 * (i + j))"
  have idx: "i + j < length t1" using j len by simp
  have x32: "x < 2 ^ 32" using small idx by (simp add: x_def)
  have ut: "unat t = x + a * b + unat c1"
    unfolding t_def x_def a_def b_def using x32 c1 by (intro mac_word) (simp_all add: x_def)
  define lo :: u64 where "lo = ucast (ucast t :: u32)"
  define hi :: u64 where "hi = drop_bit 32 t"
  have lo_val: "unat lo = unat t mod 2 ^ 32"
    by (simp only: lo_def unat_up unat_down)
  have hi_val: "unat hi = unat t div 2 ^ 32"
    by (simp only: hi_def unat_hi)
  have step: "mac_step A B i j st = (t1[i + j := lo], hi)"
    by (simp add: mac_step_def st Let_def t_def lo_def hi_def)
  have lo32: "unat lo < 2 ^ 32" by (simp add: lo_val)
  have hi32: "unat hi < 2 ^ 32"
  proof -
    have "unat t < 2 ^ 64" using unsigned_less [of t] by simp
    then have "unat t div 2 ^ 32 < 2 ^ 32" by (simp add: less_mult_imp_div_less)
    then show ?thesis by (simp only: hi_val)
  qed
  have small': "\<forall>y\<in>set (t1[i + j := lo]). unat y < 2 ^ 32"
    using small lo32 by (auto dest!: set_update_subset_insert [THEN subsetD])
  have upd: "tmp_val (t1[i + j := lo]) + x * W = tmp_val t1 + unat lo * W"
    unfolding x_def W_def using idx by (rule tmp_val_update)
  have split: "unat lo + unat hi * 2 ^ 32 = unat t"
    by (simp add: lo_val hi_val)
  have W': "2 ^ (32 * (i + Suc j)) = (2 ^ 32 :: nat) * W"
    by (simp add: W_def power_add)
  have Wij: "W = 2 ^ (32 * i) * 2 ^ (32 * j)"
    by (simp add: W_def power_add distrib_left)
  have bn: "bn_value (Suc j) B = bn_value j B + b * 2 ^ (32 * j)"
    unfolding b_def using j(2) by (rule bn_value_Suc)
  have "tmp_val (t1[i + j := lo]) + unat hi * (2 ^ 32 * W) + x * W
          = tmp_val t1 + (unat lo + unat hi * 2 ^ 32) * W"
    using upd by (simp add: algebra_simps)
  also have "\<dots> = tmp_val t1 + (x + a * b + unat c1) * W"
    by (simp only: split ut)
  also have "\<dots> = (tmp_val t1 + unat c1 * W) + a * b * W + x * W"
    by (simp add: algebra_simps)
  also have "\<dots> = (tmp_val tmp + a * bn_value j B * 2 ^ (32 * i)) + a * b * W + x * W"
    using val by (simp only: W_def a_def)
  also have "\<dots> = tmp_val tmp + a * bn_value (Suc j) B * 2 ^ (32 * i) + x * W"
    by (simp add: bn Wij algebra_simps)
  finally have val': "tmp_val (t1[i + j := lo]) + unat hi * 2 ^ (32 * (i + Suc j))
          = tmp_val tmp + a * bn_value (Suc j) B * 2 ^ (32 * i)"
    by (simp only: W')
  have rest': "\<forall>k. i + Suc j \<le> k \<longrightarrow> t1[i + j := lo] ! k = tmp ! k"
    using rest by simp
  show ?thesis
    unfolding step mac_inv_def
    using len small' hi32 val' rest' by (simp add: a_def)
qed

lemma mac_inv_fold:
  assumes "\<forall>x\<in>set tmp. unat x < 2 ^ 32"
    and "i + j \<le> length tmp" "j \<le> length B"
  shows "mac_inv A B i tmp j (fold (mac_step A B i) [0..<j] (tmp, 0))"
  using assms(2,3)
proof (induction j)
  case 0
  show ?case using assms(1) by (simp add: mac_inv_def bn_value_0)
next
  case (Suc j)
  then have "mac_inv A B i tmp j (fold (mac_step A B i) [0..<j] (tmp, 0))" by simp
  then have "mac_inv A B i tmp (Suc j) (mac_step A B i j (fold (mac_step A B i) [0..<j] (tmp, 0)))"
    using Suc.prems by (intro mac_inv_step) simp_all
  then show ?case by simp
qed

lemma row_inv_step:
  assumes inv: "row_inv A B n i tmp"
    and i: "i < n" "n \<le> length A" "n \<le> length B"
  shows "row_inv A B n (Suc i) (mul_row A B n i tmp)"
proof -
  from inv have len: "length tmp = 2 * n"
    and small: "\<forall>x\<in>set tmp. unat x < 2 ^ 32"
    and val: "tmp_val tmp = bn_value i A * bn_value n B"
    and zero: "\<forall>k. i + n \<le> k \<longrightarrow> k < 2 * n \<longrightarrow> tmp ! k = 0"
    by (simp_all add: row_inv_def)
  obtain t1 c1 where f: "fold (mac_step A B i) [0..<n] (tmp, 0) = (t1, c1)"
    by (metis prod.exhaust)
  have "mac_inv A B i tmp n (t1, c1)"
    unfolding f [symmetric] using small i len by (intro mac_inv_fold) simp_all
  then have len1: "length t1 = length tmp"
    and small1: "\<forall>x\<in>set t1. unat x < 2 ^ 32"
    and c1: "unat c1 < 2 ^ 32"
    and val1: "tmp_val t1 + unat c1 * 2 ^ (32 * (i + n))
                = tmp_val tmp + unat (A ! i) * bn_value n B * 2 ^ (32 * i)"
    and rest1: "\<forall>k. i + n \<le> k \<longrightarrow> t1 ! k = tmp ! k"
    by (simp_all add: mac_inv_def)
  have idx: "i + n < length t1" using i len len1 by simp
  have z: "t1 ! (i + n) = 0" using rest1 zero i by simp
  have row: "mul_row A B n i tmp = t1[i + n := c1]"
    by (simp add: mul_row_def f z)
  have "tmp_val (t1[i + n := c1]) + unat (t1 ! (i + n)) * 2 ^ (32 * (i + n))
          = tmp_val t1 + unat c1 * 2 ^ (32 * (i + n))"
    using idx by (rule tmp_val_update)
  then have "tmp_val (t1[i + n := c1]) = tmp_val tmp + unat (A ! i) * bn_value n B * 2 ^ (32 * i)"
    using val1 by (simp add: z)
  also have "\<dots> = bn_value (Suc i) A * bn_value n B"
    using i by (simp add: val bn_value_Suc algebra_simps)
  finally have val': "tmp_val (t1[i + n := c1]) = bn_value (Suc i) A * bn_value n B" .
  have small': "\<forall>y\<in>set (t1[i + n := c1]). unat y < 2 ^ 32"
    using small1 c1 by (auto dest!: set_update_subset_insert [THEN subsetD])
  have zero': "\<forall>k. Suc i + n \<le> k \<longrightarrow> k < 2 * n \<longrightarrow> t1[i + n := c1] ! k = 0"
    using rest1 zero by simp
  show ?thesis
    unfolding row row_inv_def using len len1 small' val' zero' by simp
qed

lemma row_inv_fold:
  assumes "n \<le> length A" "n \<le> length B" "i \<le> n"
  shows "row_inv A B n i (fold (mul_row A B n) [0..<i] (replicate (2 * n) 0))"
  using assms(3)
proof (induction i)
  case 0
  show ?case
    by (simp add: row_inv_def tmp_val_def bn_value_0 words_val_replicate_zero)
next
  case (Suc i)
  then have "row_inv A B n i (fold (mul_row A B n) [0..<i] (replicate (2 * n) 0))" by simp
  then have "row_inv A B n (Suc i)
               (mul_row A B n i (fold (mul_row A B n) [0..<i] (replicate (2 * n) 0)))"
    using Suc.prems assms(1,2) by (intro row_inv_step) simp_all
  then show ?case by simp
qed

lemma mul_schoolbook_value:
  assumes "n \<le> length A" "n \<le> length B"
  shows "length (mul_schoolbook A B n) = 2 * n"
    and "\<forall>x\<in>set (mul_schoolbook A B n). unat x < 2 ^ 32"
    and "tmp_val (mul_schoolbook A B n) = bn_value n A * bn_value n B"
  using row_inv_fold [OF assms, of n]
  by (simp_all add: mul_schoolbook_def row_inv_def)

section \<open>The reduction loop\<close>

lemma copy_low_words:
  fixes R :: "u32 list" and tmp :: "u64 list"
  assumes "n \<le> length R" "n \<le> length tmp"
  defines "R1 \<equiv> fold (\<lambda>i r. r[i := ucast (tmp ! i)]) [0..<n] R"
  shows "length R1 = length R" and "drop n R1 = drop n R"
    and "take n R1 = map ucast (take n tmp)"
proof -
  have "length (fold (\<lambda>i r. r[i := ucast (tmp ! i)]) [0..<k] R) = length R
        \<and> drop k (fold (\<lambda>i r. r[i := ucast (tmp ! i)]) [0..<k] R) = drop k R
        \<and> take k (fold (\<lambda>i r. r[i := (ucast (tmp ! i) :: u32)]) [0..<k] R) = map ucast (take k tmp)"
    if "k \<le> n" for k
    using that
  proof (induction k)
    case 0
    then show ?case by simp
  next
    case (Suc k)
    define Rk where "Rk = fold (\<lambda>i r. r[i := (ucast (tmp ! i) :: u32)]) [0..<k] R"
    from Suc have ih: "length Rk = length R" "drop k Rk = drop k R"
      "take k Rk = map ucast (take k tmp)"
      by (simp_all add: Rk_def)
    have k: "k < length Rk" "k < length tmp" using Suc.prems assms(1,2) ih(1) by simp_all
    have d: "drop (Suc k) (Rk[k := ucast (tmp ! k)]) = drop (Suc k) R"
    proof -
      have "drop (Suc k) (Rk[k := ucast (tmp ! k)]) = drop 1 (drop k Rk)" by simp
      also have "\<dots> = drop 1 (drop k R)" by (simp only: ih(2))
      finally show ?thesis by simp
    qed
    have t: "take (Suc k) (Rk[k := ucast (tmp ! k)]) = map ucast (take (Suc k) tmp)"
      using k ih(3) by (simp add: take_Suc_conv_app_nth)
    show ?case
      using ih(1) d t by (simp add: Rk_def [symmetric])
  qed
  from this [of n] show "length R1 = length R" "drop n R1 = drop n R"
    "take n R1 = map ucast (take n tmp)"
    by (simp_all add: R1_def)
qed

lemma copy_low_value:
  fixes R :: "u32 list" and tmp :: "u64 list"
  assumes "n \<le> length R" "n \<le> length tmp" "\<forall>x\<in>set tmp. unat x < 2 ^ 32"
  shows "bn_value n (fold (\<lambda>i r. r[i := ucast (tmp ! i)]) [0..<n] R) = tmp_val tmp mod 2 ^ (32 * n)"
proof -
  have "map unat (map (ucast :: u64 \<Rightarrow> u32) (take n tmp)) = take n (map unat tmp)"
    using assms(3) by (auto simp: take_map unat_down dest: in_set_takeD)
  then have "bn_value n (fold (\<lambda>i r. r[i := ucast (tmp ! i)]) [0..<n] R)
               = words_val (take n (map unat tmp))"
    by (simp add: bn_value_def copy_low_words(3) [OF assms(1,2)])
  also have "\<dots> = words_val (map unat tmp) mod 2 ^ (32 * n)"
    using assms(3) by (intro words_val_take_mod) simp
  finally show ?thesis by (simp add: tmp_val_def)
qed

text \<open>The flag \<open>ge\<close> is the strict comparison of the values.\<close>

lemma ge_flag_iff:
  assumes "n \<le> length R" "n \<le> length N"
  shows "ge_flag R N n \<longleftrightarrow> bn_value n N < bn_value n R"
  using assms
proof (induction n)
  case 0
  then show ?case by (simp add: bn_value_0)
next
  case (Suc n)
  define W :: nat where "W = 2 ^ (32 * n)"
  have r: "bn_value (Suc n) R = bn_value n R + unat (R ! n) * W"
    and m: "bn_value (Suc n) N = bn_value n N + unat (N ! n) * W"
    using Suc.prems by (simp_all add: bn_value_Suc W_def)
  have lo: "bn_value n R < W" "bn_value n N < W"
    by (simp_all add: W_def bn_value_bound)
  consider (gt) "unat (N ! n) < unat (R ! n)" | (lt) "unat (R ! n) < unat (N ! n)"
    | (eq) "unat (R ! n) = unat (N ! n)"
    by linarith
  then show ?case
  proof cases
    case gt
    then have "(unat (N ! n) + 1) * W \<le> unat (R ! n) * W"
      by (intro mult_right_mono) simp_all
    with lo have "bn_value (Suc n) N < bn_value (Suc n) R"
      by (simp add: r m)
    with gt show ?thesis by (simp add: word_less_nat_alt)
  next
    case lt
    then have "(unat (R ! n) + 1) * W \<le> unat (N ! n) * W"
      by (intro mult_right_mono) simp_all
    with lo have "\<not> bn_value (Suc n) N < bn_value (Suc n) R"
      by (simp add: r m)
    with lt show ?thesis by (simp add: word_less_nat_alt)
  next
    case eq
    then have "R ! n = N ! n" by (simp add: word_unat_eq_iff)
    with Suc eq show ?thesis by (simp add: r m)
  qed
qed

lemma sub_inv_step:
  assumes inv: "sub_inv R N j st" and j: "j < length R" "j < length N"
  shows "sub_inv R N (Suc j) (sub_step N j st)"
proof -
  obtain R1 bw where st: "st = (R1, bw)" by (cases st)
  from inv st have len: "length R1 = length R"
    and bw: "unat bw \<le> 1"
    and val: "bn_value j R1 + bn_value j N = bn_value j R + unat bw * 2 ^ (32 * j)"
    and rest: "drop j R1 = drop j R"
    by (simp_all add: sub_inv_def)
  define t where "t = (ucast (R1 ! j) :: u64) - ucast (N ! j) - bw"
  define bw' where "bw' = drop_bit 63 t AND 1"
  define W :: nat where "W = 2 ^ (32 * j)"
  have step: "sub_step N j st = (R1[j := ucast t], bw')"
    by (simp add: sub_step_def st Let_def t_def bw'_def)
  have same: "R1 ! j = R ! j"
    using rest j len by (metis nth_drop add.right_neutral less_or_eq_imp_le)
  from sub_word [OF bw, of "R1 ! j" "N ! j", folded t_def, folded bw'_def]
  have bw'1: "unat bw' \<le> 1"
    and w: "unat (ucast t :: u32) + unat (N ! j) + unat bw = unat (R ! j) + unat bw' * 2 ^ 32"
    by (simp_all add: same)
  have idx: "j < length R1" using j len by simp
  have tk: "take j (R1[j := ucast t]) = take j R1" by simp
  have v1: "bn_value (Suc j) (R1[j := ucast t]) = bn_value j R1 + unat (ucast t :: u32) * W"
    using idx by (simp add: bn_value_Suc W_def) (simp add: bn_value_def)
  have v2: "bn_value (Suc j) N = bn_value j N + unat (N ! j) * W"
    and v3: "bn_value (Suc j) R = bn_value j R + unat (R ! j) * W"
    using j by (simp_all add: bn_value_Suc W_def)
  have W': "2 ^ (32 * Suc j) = (2 ^ 32 :: nat) * W"
    by (simp add: W_def power_add)
  have "bn_value (Suc j) (R1[j := ucast t]) + bn_value (Suc j) N + unat bw * W
          = (bn_value j R1 + bn_value j N) + (unat (ucast t :: u32) + unat (N ! j) + unat bw) * W"
    by (simp add: v1 v2 algebra_simps)
  also have "\<dots> = (bn_value j R + unat bw * W) + (unat (R ! j) + unat bw' * 2 ^ 32) * W"
    using val by (simp only: w W_def)
  also have "\<dots> = bn_value (Suc j) R + unat bw' * (2 ^ 32 * W) + unat bw * W"
    by (simp add: v3 algebra_simps)
  finally have val': "bn_value (Suc j) (R1[j := ucast t]) + bn_value (Suc j) N
                        = bn_value (Suc j) R + unat bw' * 2 ^ (32 * Suc j)"
    by (simp only: W')
  have rest': "drop (Suc j) (R1[j := ucast t]) = drop (Suc j) R"
  proof -
    have "drop (Suc j) (R1[j := ucast t]) = drop 1 (drop j R1)" by simp
    also have "\<dots> = drop 1 (drop j R)" by (simp only: rest)
    finally show ?thesis by simp
  qed
  show ?thesis
    unfolding step sub_inv_def using len bw'1 val' rest' by simp
qed

lemma sub_inv_fold:
  assumes "j \<le> length R" "j \<le> length N"
  shows "sub_inv R N j (fold (sub_step N) [0..<j] (R, 0))"
  using assms
proof (induction j)
  case 0
  show ?case by (simp add: sub_inv_def bn_value_0)
next
  case (Suc j)
  then have "sub_inv R N j (fold (sub_step N) [0..<j] (R, 0))" by simp
  then have "sub_inv R N (Suc j) (sub_step N j (fold (sub_step N) [0..<j] (R, 0)))"
    using Suc.prems by (intro sub_inv_step) simp_all
  then show ?case by simp
qed

lemma sub_words_value:
  assumes "n \<le> length R" "n \<le> length N" "bn_value n N \<le> bn_value n R"
  shows "bn_value n (sub_words R N n) = bn_value n R - bn_value n N"
    and "length (sub_words R N n) = length R"
    and "drop n (sub_words R N n) = drop n R"
proof -
  obtain R1 bw where f: "fold (sub_step N) [0..<n] (R, 0) = (R1, bw)"
    by (metis prod.exhaust)
  from sub_inv_fold [OF assms(1,2)] f
  have len: "length R1 = length R"
    and bw: "unat bw \<le> 1"
    and val: "bn_value n R1 + bn_value n N = bn_value n R + unat bw * 2 ^ (32 * n)"
    and rest: "drop n R1 = drop n R"
    by (simp_all add: sub_inv_def)
  have sw: "sub_words R N n = R1" by (simp add: sub_words_def f)
  have "unat bw = 0"
  proof (rule ccontr)
    assume "unat bw \<noteq> 0"
    with bw have "unat bw = 1" by simp
    with val assms(3) have "2 ^ (32 * n) \<le> bn_value n R1" by simp
    with bn_value_bound [of n R1] show False by simp
  qed
  with val show "bn_value n (sub_words R N n) = bn_value n R - bn_value n N"
    by (simp add: sw)
  show "length (sub_words R N n) = length R" "drop n (sub_words R N n) = drop n R"
    by (simp_all add: sw len rest)
qed

lemma reduce_val_le: "r \<le> m \<Longrightarrow> reduce_val r m = r"
  by (cases "r = m") (auto simp: reduce_val_def)

lemma reduce_val_sub: "m < r \<Longrightarrow> reduce_val (r - m) m = reduce_val r m"
  by (auto simp: reduce_val_def le_mod_geq)

lemma reduce_loop_value:
  assumes "n \<le> length R" "n \<le> length N" "1 \<le> bn_value n N"
  shows "\<exists>R'. reduce_loop R N n = Some R'
           \<and> bn_value n R' = reduce_val (bn_value n R) (bn_value n N)
           \<and> length R' = length R \<and> drop n R' = drop n R"
  using assms(1)
proof (induction "bn_value n R" arbitrary: R rule: less_induct)
  case less
  show ?case
  proof (cases "ge_flag R N n")
    case False
    then have "bn_value n R \<le> bn_value n N"
      using less.prems assms(2) by (simp add: ge_flag_iff)
    with False show ?thesis
      by (subst reduce_loop.simps) (simp add: reduce_val_le)
  next
    case True
    then have gt: "bn_value n N < bn_value n R"
      using less.prems assms(2) by (simp add: ge_flag_iff)
    define R1 where "R1 = sub_words R N n"
    have s: "bn_value n R1 = bn_value n R - bn_value n N"
      "length R1 = length R" "drop n R1 = drop n R"
      unfolding R1_def using less.prems assms(2) gt by (simp_all add: sub_words_value)
    have "bn_value n R1 < bn_value n R" using s(1) gt assms(3) by simp
    from less.hyps [OF this] less.prems s(2)
    obtain R' where r: "reduce_loop R1 N n = Some R'"
      "bn_value n R' = reduce_val (bn_value n R1) (bn_value n N)"
      "length R' = length R1" "drop n R' = drop n R1"
      by auto
    have "reduce_loop R N n = reduce_loop R1 N n"
      using True by (subst reduce_loop.simps) (simp add: R1_def)
    with r s gt show ?thesis
      by (simp add: reduce_val_sub)
  qed
qed

text \<open>
  The value of the result of \<open>modmul_sw\<close>, for any operands and any modulus of value at
  least 1. Words of \<open>R\<close> beyond the first \<open>n\<close> are not touched.
\<close>

lemma modmul_sw_value:
  assumes "n \<le> length A" "n \<le> length B" "n \<le> length N" "n \<le> length R"
    and "1 \<le> bn_value n N"
  shows "\<exists>R'. modmul_sw A B N R n = Some R'
           \<and> bn_value n R' = reduce_val ((bn_value n A * bn_value n B) mod 2 ^ (32 * n)) (bn_value n N)
           \<and> length R' = length R \<and> drop n R' = drop n R"
proof -
  define tmp where "tmp = mul_schoolbook A B n"
  define R1 where "R1 = fold (\<lambda>i r. r[i := ucast (tmp ! i)]) [0..<n] R"
  have t: "length tmp = 2 * n" "\<forall>x\<in>set tmp. unat x < 2 ^ 32"
    "tmp_val tmp = bn_value n A * bn_value n B"
    unfolding tmp_def using assms(1,2) by (rule mul_schoolbook_value)+
  have n_tmp: "n \<le> length tmp" using t(1) by simp
  have r1: "length R1 = length R" "drop n R1 = drop n R"
    unfolding R1_def using assms(4) n_tmp by (rule copy_low_words)+
  have v1: "bn_value n R1 = (bn_value n A * bn_value n B) mod 2 ^ (32 * n)"
    unfolding R1_def using copy_low_value [OF assms(4) n_tmp t(2)] by (simp add: t(3))
  have "n \<le> length R1" using r1(1) assms(4) by simp
  from reduce_loop_value [OF this assms(3,5)] r1 v1
  have "\<exists>R'. reduce_loop R1 N n = Some R'
           \<and> bn_value n R' = reduce_val ((bn_value n A * bn_value n B) mod 2 ^ (32 * n)) (bn_value n N)
           \<and> length R' = length R \<and> drop n R' = drop n R"
    by simp
  then show ?thesis
    by (simp add: modmul_sw_def tmp_def [symmetric] R1_def [symmetric] Let_def)
qed

section \<open>Termination of the reduction loop\<close>

text \<open>
  With a modulus of value 0 the subtraction changes nothing, so a loop that is entered
  is never left: by fixed-point induction, whenever \<open>reduce_loop\<close> returns, the modulus
  is not 0 or the value of \<open>R\<close> is.
\<close>

lemma reduce_loop_zero_modulus:
  assumes "reduce_loop R N n = Some y"
  shows "\<not> (n \<le> length R \<and> n \<le> length N \<and> bn_value n N = 0 \<and> bn_value n R \<noteq> 0)"
proof (rule reduce_loop.raw_induct
    [where P = "\<lambda>R N n y. \<not> (n \<le> length R \<and> n \<le> length N \<and> bn_value n N = 0 \<and> bn_value n R \<noteq> 0)",
      OF _ assms])
  fix f :: "u32 list \<Rightarrow> u32 list \<Rightarrow> nat \<Rightarrow> u32 list option" and R N n Ra
  assume ih: "\<And>R N n y. f R N n = Some y \<Longrightarrow>
            \<not> (n \<le> length R \<and> n \<le> length N \<and> bn_value n N = 0 \<and> bn_value n R \<noteq> 0)"
    and eq: "(if ge_flag R N n then f (sub_words R N n) N n else Some R) = Some Ra"
  show "\<not> (n \<le> length R \<and> n \<le> length N \<and> bn_value n N = 0 \<and> bn_value n R \<noteq> 0)"
  proof
    assume a: "n \<le> length R \<and> n \<le> length N \<and> bn_value n N = 0 \<and> bn_value n R \<noteq> 0"
    then have "ge_flag R N n" by (simp add: ge_flag_iff)
    with eq have "f (sub_words R N n) N n = Some Ra" by simp
    from ih [OF this] a show False
      by (simp add: sub_words_value)
  qed
qed

text \<open>
  C9. For every modulus whose value is at least 1 the reduction loop ends, whatever
  the operands: each pass through the subtraction lowers the value of the low words by
  the value of \<open>N\<close>. So \<open>modmul_sw\<close> returns under that precondition. The precondition
  is needed: with a modulus of value 0 and a product whose low words are not all zero
  the loop never ends. The arrays hold at least \<open>n\<close> words each.
\<close>

theorem modmul_sw_terminates:
  assumes "n \<le> length A" "n \<le> length B" "n \<le> length N" "n \<le> length R"
  shows "(1 \<le> bn_value n N \<longrightarrow> (\<exists>R'. modmul_sw A B N R n = Some R'))
       \<and> (bn_value n N = 0 \<and> (bn_value n A * bn_value n B) mod 2 ^ (32 * n) \<noteq> 0
            \<longrightarrow> modmul_sw A B N R n = None)"
proof (intro conjI impI)
  assume "1 \<le> bn_value n N"
  from modmul_sw_value [OF assms this] show "\<exists>R'. modmul_sw A B N R n = Some R'"
    by blast
next
  assume z: "bn_value n N = 0 \<and> (bn_value n A * bn_value n B) mod 2 ^ (32 * n) \<noteq> 0"
  define tmp where "tmp = mul_schoolbook A B n"
  define R1 where "R1 = fold (\<lambda>i r. r[i := ucast (tmp ! i)]) [0..<n] R"
  have t: "length tmp = 2 * n" "\<forall>x\<in>set tmp. unat x < 2 ^ 32"
    "tmp_val tmp = bn_value n A * bn_value n B"
    unfolding tmp_def using assms(1,2) by (rule mul_schoolbook_value)+
  have n_tmp: "n \<le> length tmp" using t(1) by simp
  have r1: "length R1 = length R"
    unfolding R1_def using assms(4) n_tmp by (rule copy_low_words)
  have v1: "bn_value n R1 = (bn_value n A * bn_value n B) mod 2 ^ (32 * n)"
    unfolding R1_def using copy_low_value [OF assms(4) n_tmp t(2)] by (simp add: t(3))
  have "reduce_loop R1 N n = None"
  proof (cases "reduce_loop R1 N n")
    case None
    then show ?thesis .
  next
    case (Some y)
    from reduce_loop_zero_modulus [OF this] z v1 r1 assms(3,4) show ?thesis by simp
  qed
  then show "modmul_sw A B N R n = None"
    by (simp add: modmul_sw_def tmp_def [symmetric] R1_def [symmetric] Let_def)
qed

theorem modmul_sw_terminates_witness:
  "(1 \<le> bn_value 1 [3233] \<and> (\<exists>R'. modmul_sw [53] [61] [3233] [0] 1 = Some R'))
   \<and> (bn_value 1 [0] = 0 \<and> (bn_value 1 [2] * bn_value 1 [3]) mod 2 ^ (32 * 1) \<noteq> 0
        \<and> modmul_sw [2] [3] [0] [0] 1 = None)"
proof -
  have 1: "1 \<le> bn_value 1 [3233]" by (simp add: bn_value_def)
  have 2: "bn_value 1 [0] = 0 \<and> (bn_value 1 [2] * bn_value 1 [3]) mod 2 ^ (32 * 1) \<noteq> 0"
    by (simp add: bn_value_def)
  show ?thesis
    using 1 2 modmul_sw_terminates [of 1 "[53]" "[61]" "[3233]" "[0]"]
      modmul_sw_terminates [of 1 "[2]" "[3]" "[0]" "[0]"]
    by simp
qed

section \<open>What the software multiply returns\<close>

text \<open>
  By \<open>modmul_sw_value\<close> the value of the result is \<open>reduce_val P (value N)\<close>, where \<open>P\<close> is
  the value of the low \<open>nwords\<close> words of the product: the remainder of \<open>P\<close> modulo \<open>N\<close>,
  except that a non-zero multiple of \<open>N\<close> is reduced to \<open>N\<close> itself. Two consequences.
\<close>

text \<open>
  C4. The claim: for every width \<open>w \<ge> 1\<close>, every modulus of value at least 1 and all
  operands, the value that \<open>modmul_sw\<close> returns is strictly below the value of \<open>N\<close>, the
  loop not stopping while the low words still equal or exceed \<open>N\<close>. The code leaves the
  comparison loop with \<open>ge = 0\<close> when all words are equal, so it stops at a value equal
  to \<open>N\<close>: with one word, \<open>A = 3\<close>, \<open>B = 5\<close> and \<open>N = 15\<close> it returns 15, which is not
  below 15.
\<close>

theorem modmul_sw_returns_modulus:
  "\<exists>R'. modmul_sw [3] [5] [15] [0] 1 = Some R'
      \<and> 1 \<le> bn_value 1 [15] \<and> bn_value 1 R' = bn_value 1 [15]"
proof -
  have "modmul_sw [3] [5] [15] [0] 1 = Some [15]"
    by code_simp
  then show ?thesis
    by (simp add: bn_value_def)
qed

text \<open>
  C2. The claim: for reduced operands and an odd modulus that fits the width, the value
  that \<open>modmul_sw\<close> returns is \<open>(value A * value B) mod value N\<close>. With the program's own
  modulus \<open>3233 = 53 * 61\<close> (odd, one word) and the reduced operands 53 and 61 the code
  returns 3233, where \<open>(53 * 61) mod 3233 = 0\<close>. And independently of the comparison:
  only the low \<open>nwords\<close> words of the double-width product are copied into \<open>R\<close> and
  reduced, so with one word, \<open>N = 2^32 - 1\<close> and \<open>A = B = 2^16\<close> the code returns 0, where
  \<open>2^32 mod (2^32 - 1) = 1\<close>.
\<close>

theorem modmul_sw_not_product_mod:
  "(\<exists>R'. modmul_sw [53] [61] [3233] [0] 1 = Some R'
       \<and> bn_value 1 [53] < bn_value 1 [3233] \<and> bn_value 1 [61] < bn_value 1 [3233]
       \<and> odd (bn_value 1 [3233])
       \<and> bn_value 1 R' = 3233
       \<and> (bn_value 1 [53] * bn_value 1 [61]) mod bn_value 1 [3233] = 0)
   \<and> (\<exists>R'. modmul_sw [0x10000] [0x10000] [0xFFFFFFFF] [0] 1 = Some R'
         \<and> bn_value 1 [0x10000] < bn_value 1 [0xFFFFFFFF]
         \<and> odd (bn_value 1 [0xFFFFFFFF])
         \<and> bn_value 1 R' = 0
         \<and> (bn_value 1 [0x10000] * bn_value 1 [0x10000]) mod bn_value 1 [0xFFFFFFFF] = 1)"
proof -
  have "modmul_sw [53] [61] [3233] [0] 1 = Some [3233]"
    by code_simp
  moreover have "modmul_sw [0x10000] [0x10000] [0xFFFFFFFF] [0] 1 = Some [0]"
    by code_simp
  ultimately show ?thesis
    by (simp add: bn_value_def)
qed

section \<open>Exponent bits and modular arithmetic\<close>

lemma exp_bit_test: "drop_bit t (e :: u32) AND 1 \<noteq> 0 \<longleftrightarrow> bit (unat e) t"
proof -
  have "drop_bit t e AND 1 \<noteq> 0 \<longleftrightarrow> odd (drop_bit t e)"
    by (simp add: and_one_eq odd_iff_mod_2_eq_one)
  also have "\<dots> \<longleftrightarrow> bit e t"
    by (simp add: bit_iff_odd_drop_bit)
  also have "\<dots> \<longleftrightarrow> bit (unat e) t"
    by (simp add: bit_unsigned_iff)
  finally show ?thesis .
qed

lemma mod_pow2_Suc:
  "(k :: nat) mod 2 ^ Suc t = k mod 2 ^ t + (if bit k t then 2 ^ t else 0)"
  using take_bit_Suc_from_most [of t k] by (simp add: take_bit_eq_mod)

lemma mod_mult_cancel_coprime:
  fixes a b c m :: nat
  assumes "coprime c m" "(a * c) mod m = (b * c) mod m"
  shows "a mod m = b mod m"
proof -
  have "(int a * int c) mod int m = (int b * int c) mod int m"
    using assms(2) by (metis of_nat_mod of_nat_mult)
  then have "int m dvd (int a * int c - int b * int c)"
    by (simp add: mod_eq_dvd_iff)
  then have "int m dvd (int a - int b) * int c"
    by (simp add: algebra_simps)
  moreover have "coprime (int m) (int c)"
    using assms(1) by (simp add: coprime_commute)
  ultimately have "int m dvd (int a - int b)"
    by (simp add: coprime_dvd_mult_left_iff)
  then have "int a mod int m = int b mod int m"
    by (simp add: mod_eq_dvd_iff)
  then show ?thesis
    by (metis of_nat_mod of_nat_eq_iff)
qed

section \<open>Copying and setting\<close>

lemma bigint_copy_take:
  fixes dst src :: "u32 list"
  assumes "n \<le> length dst" "n \<le> length src"
  shows "length (bigint_copy dst src n) = length dst"
    and "drop n (bigint_copy dst src n) = drop n dst"
    and "take n (bigint_copy dst src n) = take n src"
proof -
  have "length (fold (\<lambda>i d. d[i := src ! i]) [0..<k] dst) = length dst
        \<and> drop k (fold (\<lambda>i d. d[i := src ! i]) [0..<k] dst) = drop k dst
        \<and> take k (fold (\<lambda>i d. d[i := src ! i]) [0..<k] dst) = take k src"
    if "k \<le> n" for k
    using that
  proof (induction k)
    case 0
    then show ?case by simp
  next
    case (Suc k)
    define D where "D = fold (\<lambda>i d. d[i := src ! i]) [0..<k] dst"
    from Suc have ih: "length D = length dst" "drop k D = drop k dst" "take k D = take k src"
      by (simp_all add: D_def)
    have k: "k < length D" "k < length src" using Suc.prems assms ih(1) by simp_all
    have d: "drop (Suc k) (D[k := src ! k]) = drop (Suc k) dst"
    proof -
      have "drop (Suc k) (D[k := src ! k]) = drop 1 (drop k D)" by simp
      also have "\<dots> = drop 1 (drop k dst)" by (simp only: ih(2))
      finally show ?thesis by simp
    qed
    have t: "take (Suc k) (D[k := src ! k]) = take (Suc k) src"
      using k ih(3) by (simp add: take_Suc_conv_app_nth)
    show ?case
      using ih(1) d t by (simp add: D_def [symmetric])
  qed
  from this [of n] show "length (bigint_copy dst src n) = length dst"
    "drop n (bigint_copy dst src n) = drop n dst"
    "take n (bigint_copy dst src n) = take n src"
    by (simp_all add: bigint_copy_def)
qed

lemma bigint_copy_value:
  "n \<le> length dst \<Longrightarrow> n \<le> length src \<Longrightarrow> bn_value n (bigint_copy dst src n) = bn_value n src"
  by (simp add: bn_value_def bigint_copy_take)

lemma length_bigint_set_u32: "length (bigint_set_u32 dst v n) = length dst"
proof -
  have "length (fold (\<lambda>i d. d[i := 0]) js ds) = length ds" for js and ds :: "u32 list"
    by (induction js arbitrary: ds) simp_all
  then show ?thesis by (simp add: bigint_set_u32_def)
qed

lemma bigint_set_u32_take:
  fixes dst :: "u32 list"
  assumes "1 \<le> n" "n \<le> length dst"
  shows "take n (bigint_set_u32 dst v n) = v # replicate (n - 1) 0"
proof -
  have "take (Suc k) (fold (\<lambda>i d. d[i := 0]) [1..<Suc k] (dst[0 := v])) = v # replicate k 0
        \<and> length (fold (\<lambda>i d. d[i := 0]) [1..<Suc k] (dst[0 := v])) = length dst"
    if "Suc k \<le> n" for k
    using that
  proof (induction k)
    case 0
    with assms show ?case by (cases dst) simp_all
  next
    case (Suc k)
    define D where "D = fold (\<lambda>i d. d[i := 0]) [1..<Suc k] (dst[0 := v])"
    from Suc have ih: "take (Suc k) D = v # replicate k 0" "length D = length dst"
      by (simp_all add: D_def)
    have k: "Suc k < length D" using Suc.prems assms ih(2) by simp
    have "take (Suc (Suc k)) (D[Suc k := 0]) = take (Suc k) D @ [0]"
      using k by (simp add: take_Suc_conv_app_nth [of "Suc k"])
    also have "\<dots> = v # replicate (Suc k) 0"
      by (simp only: ih(1)) (simp add: replicate_append_same)
    finally have t: "take (Suc (Suc k)) (D[Suc k := 0]) = v # replicate (Suc k) 0" .
    have "fold (\<lambda>i d. d[i := 0]) [1..<Suc (Suc k)] (dst[0 := v]) = D[Suc k := 0]"
      unfolding D_def by (simp del: upt_Suc add: upt_Suc_append)
    then show ?case
      using ih(2) t by (simp del: upt_Suc replicate_Suc)
  qed
  from this [of "n - 1"] assms show ?thesis
    by (simp add: bigint_set_u32_def)
qed

lemma bigint_set_u32_value:
  "1 \<le> n \<Longrightarrow> n \<le> length dst \<Longrightarrow> bn_value n (bigint_set_u32 dst v n) = unat v"
  by (simp add: bn_value_def bigint_set_u32_take words_val_append map_replicate_const
      words_val_replicate_zero)

lemma length_uninit_words: "length uninit_words = MAX_WORDS"
  by (simp add: uninit_words_def)

section \<open>The software engine\<close>

lemma modmul_sw_reduced:
  assumes len: "n \<le> length A" "n \<le> length B" "n \<le> length N" "n \<le> length R"
    and m: "1 < bn_value n N" "bn_value n N * bn_value n N \<le> 2 ^ (32 * n)"
    and red: "bn_value n A < bn_value n N" "bn_value n B < bn_value n N"
    and nz: "bn_value n N dvd bn_value n A * bn_value n B \<Longrightarrow> bn_value n A * bn_value n B = 0"
  shows "\<exists>R'. modmul_sw A B N R n = Some R'
           \<and> bn_value n R' = (bn_value n A * bn_value n B) mod bn_value n N
           \<and> length R' = length R \<and> drop n R' = drop n R"
proof -
  define P where "P = bn_value n A * bn_value n B"
  have "P < bn_value n N * bn_value n N"
    unfolding P_def using red m(1) by (intro mult_strict_mono) simp_all
  with m(2) have "P mod 2 ^ (32 * n) = P" by simp
  moreover have "reduce_val P (bn_value n N) = P mod bn_value n N"
    using nz by (auto simp: reduce_val_def P_def)
  moreover have "1 \<le> bn_value n N" using m(1) by simp
  ultimately show ?thesis
    using modmul_sw_value [OF len, of ] by (simp add: P_def)
qed

lemma modexp_sw_loop_value:
  fixes b m ev :: nat
  assumes lenN: "n \<le> length N"
    and m: "1 < m" "m * m \<le> 2 ^ (32 * n)" "bn_value n N = m"
    and b: "b < m" "\<forall>k. m dvd b ^ k \<longrightarrow> b = 0"
    and ev: "ev = unat exp"
    and st: "n \<le> length x" "n \<le> length a"
      "bn_value n x = b ^ (ev mod 2 ^ t) mod m" "bn_value n a = b ^ (2 ^ t) mod m"
  shows "\<exists>x' a'. modexp_sw_loop exp N n [t..<t + len] x a = Some (x', a')
           \<and> bn_value n x' = b ^ (ev mod 2 ^ (t + len)) mod m
           \<and> length x' = length x"
  using st
proof (induction len arbitrary: t x a)
  case 0
  then show ?case by simp
next
  case (Suc len)
  define i where "i = ev mod 2 ^ t"
  define j :: nat where "j = 2 ^ t"
  have j1: "1 \<le> j" by (simp add: j_def)
  have xv: "bn_value n x = b ^ i mod m" and av: "bn_value n a = b ^ j mod m"
    using Suc.prems by (simp_all add: i_def j_def)
  have lt: "bn_value n x < m" "bn_value n a < m"
    using m(1) by (simp_all add: xv av)
  have zero: "m dvd (b ^ p mod m) * (b ^ q mod m) \<Longrightarrow> 1 \<le> q \<Longrightarrow> (b ^ p mod m) * (b ^ q mod m) = 0"
    for p q
  proof -
    assume d: "m dvd (b ^ p mod m) * (b ^ q mod m)" and q: "1 \<le> q"
    then have "((b ^ p mod m) * (b ^ q mod m)) mod m = 0" by simp
    then have "b ^ (p + q) mod m = 0" by (simp add: mod_mult_eq power_add)
    then have "m dvd b ^ (p + q)" by (simp add: dvd_eq_mod_eq_0)
    with b(2) have "b = 0" by blast
    with q show ?thesis by (simp add: power_0_left)
  qed
  \<comment> \<open>the conditional multiplication\<close>
  define x1v where "x1v = b ^ (ev mod 2 ^ Suc t) mod m"
  have "\<exists>x1. (if drop_bit t exp AND 1 \<noteq> 0 then modmul_sw x a N x n else Some x) = Some x1
          \<and> bn_value n x1 = x1v \<and> length x1 = length x"
  proof (cases "drop_bit t exp AND 1 \<noteq> 0")
    case True
    then have bt: "bit ev t" by (simp add: exp_bit_test ev)
    have "\<exists>R'. modmul_sw x a N x n = Some R'
           \<and> bn_value n R' = (bn_value n x * bn_value n a) mod bn_value n N
           \<and> length R' = length x \<and> drop n R' = drop n x"
      using Suc.prems(1,2) lenN m lt zero [of i j] j1
      by (intro modmul_sw_reduced) (simp_all add: xv av)
    then obtain R' where r: "modmul_sw x a N x n = Some R'"
      "bn_value n R' = (bn_value n x * bn_value n a) mod m" "length R' = length x"
      using m(3) by auto
    have "(bn_value n x * bn_value n a) mod m = b ^ (i + j) mod m"
      by (simp add: xv av mod_mult_eq power_add)
    also have "i + j = ev mod 2 ^ Suc t"
      using bt by (simp add: mod_pow2_Suc i_def j_def del: power_Suc)
    finally show ?thesis using True r by (simp add: x1v_def)
  next
    case False
    then have "\<not> bit ev t" by (simp add: exp_bit_test ev)
    then have "ev mod 2 ^ Suc t = i" by (simp add: mod_pow2_Suc i_def del: power_Suc)
    with False xv show ?thesis by (simp add: x1v_def)
  qed
  then obtain x1 where x1:
    "(if drop_bit t exp AND 1 \<noteq> 0 then modmul_sw x a N x n else Some x) = Some x1"
    "bn_value n x1 = x1v" "length x1 = length x"
    by blast
  \<comment> \<open>the squaring\<close>
  have "\<exists>R'. modmul_sw a a N a n = Some R'
           \<and> bn_value n R' = (bn_value n a * bn_value n a) mod bn_value n N
           \<and> length R' = length a \<and> drop n R' = drop n a"
    using Suc.prems(2) lenN m lt zero [of j j] j1
    by (intro modmul_sw_reduced) (simp_all add: av)
  then obtain a1 where a1: "modmul_sw a a N a n = Some a1"
    "bn_value n a1 = (bn_value n a * bn_value n a) mod m" "length a1 = length a"
    using m(3) by auto
  have "(bn_value n a * bn_value n a) mod m = b ^ (j + j) mod m"
    by (simp add: av mod_mult_eq power_add)
  also have "j + j = 2 ^ Suc t" by (simp add: j_def)
  finally have a1v: "bn_value n a1 = b ^ (2 ^ Suc t) mod m" by (simp add: a1(2))
  have "\<exists>x' a'. modexp_sw_loop exp N n [Suc t..<Suc t + len] x1 a1 = Some (x', a')
           \<and> bn_value n x' = b ^ (ev mod 2 ^ (Suc t + len)) mod m
           \<and> length x' = length x1"
    using Suc.prems(1,2) x1 a1 a1v by (intro Suc.IH) (simp_all add: x1v_def)
  moreover have "[t..<t + Suc len] = t # [Suc t..<Suc t + len]"
    by (simp add: upt_conv_Cons)
  ultimately show ?case
    using x1 a1 by (simp del: upt_Suc)
qed

lemma modexp_sw_scalar_value:
  fixes b m :: nat
  assumes len: "n \<le> MAX_WORDS" "n \<le> length base" "n \<le> length N" "n \<le> length result"
    and m: "1 < m" "m * m \<le> 2 ^ (32 * n)" "bn_value n N = m"
    and b: "bn_value n base = b" "b < m" "\<forall>k. m dvd b ^ k \<longrightarrow> b = 0"
  shows "\<exists>r. modexp_sw_scalar base exp exp_bits N result n = Some r
           \<and> bn_value n r = b ^ (unat exp mod 2 ^ nat exp_bits) mod m
           \<and> length r = length result \<and> drop n r = drop n result"
proof -
  have n1: "1 \<le> n"
  proof (rule ccontr)
    assume "\<not> 1 \<le> n"
    then have "n = 0" by linarith
    then have "bn_value n N = 0" by (simp add: bn_value_0)
    with m(1,3) show False by simp
  qed
  define x where "x = bigint_set_u32 uninit_words 1 n"
  define a where "a = bigint_copy uninit_words base n"
  have lx: "n \<le> length x" "n \<le> length a"
    using len(1,2) by (simp_all add: x_def a_def length_bigint_set_u32 bigint_copy_take
        length_uninit_words)
  have xv: "bn_value n x = b ^ (unat exp mod 2 ^ 0) mod m"
    using n1 len(1) m(1) by (simp add: x_def bigint_set_u32_value length_uninit_words)
  have av: "bn_value n a = b ^ (2 ^ 0) mod m"
    using len(1,2) b(1,2) by (simp add: a_def bigint_copy_value length_uninit_words)
  from modexp_sw_loop_value [OF len(3) m b(2,3) refl lx xv av, of "nat exp_bits"]
  obtain x' a' where l: "modexp_sw_loop exp N n [0..<nat exp_bits] x a = Some (x', a')"
    "bn_value n x' = b ^ (unat exp mod 2 ^ nat exp_bits) mod m" "length x' = length x"
    by auto
  have "n \<le> length x'" using l(3) lx by simp
  with len(4) have "bn_value n (bigint_copy result x' n) = bn_value n x'"
    "length (bigint_copy result x' n) = length result"
    "drop n (bigint_copy result x' n) = drop n result"
    by (simp_all add: bigint_copy_value bigint_copy_take)
  with l show ?thesis
    by (simp add: modexp_sw_scalar_def x_def [symmetric] a_def [symmetric] Let_def)
qed

section \<open>Arithmetic of the toy key\<close>

lemma fermat_53_int: "list_all (\<lambda>r::int. r ^ 52 mod 53 = 1) [1..52]"
  by code_simp

lemma fermat_61_int: "list_all (\<lambda>r::int. r ^ 60 mod 61 = 1) [1..60]"
  by code_simp

lemma fermat_53:
  fixes M :: nat
  assumes "M mod 53 \<noteq> 0"
  shows "M ^ 52 mod 53 = 1"
proof -
  define r where "r = int (M mod 53)"
  have "r \<in> set [1..52]" using assms by (simp add: r_def)
  with fermat_53_int have "r ^ 52 mod 53 = 1" unfolding list_all_iff by blast
  then have "int ((M mod 53) ^ 52 mod 53) = 1"
    by (simp add: r_def zmod_int)
  then have "(M mod 53) ^ 52 mod 53 = 1" by linarith
  then show ?thesis by (simp add: power_mod)
qed

lemma fermat_61:
  fixes M :: nat
  assumes "M mod 61 \<noteq> 0"
  shows "M ^ 60 mod 61 = 1"
proof -
  define r where "r = int (M mod 61)"
  have "r \<in> set [1..60]" using assms by (simp add: r_def)
  with fermat_61_int have "r ^ 60 mod 61 = 1" unfolding list_all_iff by blast
  then have "int ((M mod 61) ^ 60 mod 61) = 1"
    by (simp add: r_def zmod_int)
  then have "(M mod 61) ^ 60 mod 61 = 1" by linarith
  then show ?thesis by (simp add: power_mod)
qed

lemma coprime_53_61_int: "coprime (53 :: int) 61"
proof -
  have "gcd (53 :: int) 61 = 1" by code_simp
  then show ?thesis by (simp only: coprime_iff_gcd_eq_1)
qed

lemma coprime_53_61: "coprime (53 :: nat) 61"
  using coprime_53_61_int coprime_int_iff [of 53 61] by simp

lemma crt_3233:
  fixes x M :: nat
  assumes "x mod 53 = M mod 53" "x mod 61 = M mod 61"
  shows "x mod 3233 = M mod 3233"
proof -
  have "int (x mod 53) = int (M mod 53)" "int (x mod 61) = int (M mod 61)"
    using assms by simp_all
  then have "int x mod 53 = int M mod 53" "int x mod 61 = int M mod 61"
    by (simp_all add: zmod_int)
  then have d: "(53 :: int) dvd int x - int M" "(61 :: int) dvd int x - int M"
    by (simp_all add: mod_eq_dvd_iff)
  from divides_mult [OF d coprime_53_61_int] have "(3233 :: int) dvd int x - int M" by simp
  then have "int x mod 3233 = int M mod 3233"
    by (simp add: mod_eq_dvd_iff)
  then have "int (x mod 3233) = int (M mod 3233)"
    by (simp add: zmod_int)
  then show ?thesis by linarith
qed

lemma pow_fermat:
  fixes M p q c :: nat
  assumes f: "M mod p \<noteq> 0 \<Longrightarrow> M ^ q mod p = 1" and p: "1 < p"
  shows "M ^ Suc (q * c) mod p = M mod p"
proof (cases "M mod p = 0")
  case True
  have "M ^ Suc (q * c) mod p = (M mod p) ^ Suc (q * c) mod p"
    by (simp only: power_mod)
  with True show ?thesis by simp
next
  case False
  have "M ^ Suc (q * c) = M * (M ^ q) ^ c"
    by (simp only: power_Suc power_mult)
  then have "M ^ Suc (q * c) mod p = (M mod p) * ((M ^ q mod p) ^ c mod p) mod p"
    by (simp only: mod_mult_eq power_mod)
  also have "\<dots> = (M mod p) * (1 ^ c mod p) mod p"
    by (simp only: f [OF False])
  also have "\<dots> = M mod p"
    using p by simp
  finally show ?thesis .
qed

lemma pow_46801_mod_53: "(M :: nat) ^ 46801 mod 53 = M mod 53"
proof -
  have e: "(46801 :: nat) = Suc (52 * 900)" by simp
  show ?thesis
    unfolding e by (rule pow_fermat) (simp_all add: fermat_53)
qed

lemma pow_46801_mod_61: "(M :: nat) ^ 46801 mod 61 = M mod 61"
proof -
  have e: "(46801 :: nat) = Suc (60 * 780)" by simp
  show ?thesis
    unfolding e by (rule pow_fermat) (simp_all add: fermat_61)
qed

lemma rsa_toy_roundtrip:
  fixes M :: nat
  assumes "M < 3233"
  shows "(M ^ 17 mod 3233) ^ 2753 mod 3233 = M"
proof -
  have e: "(17 :: nat) * 2753 = 46801" by simp
  have "(M ^ 17 mod 3233) ^ 2753 mod 3233 = (M ^ 17) ^ 2753 mod 3233"
    by (simp only: power_mod)
  also have "(M ^ 17) ^ 2753 = M ^ 46801"
    by (simp only: power_mult [symmetric] e)
  also have "M ^ 46801 mod 3233 = M mod 3233"
    by (rule crt_3233) (simp_all only: pow_46801_mod_53 pow_46801_mod_61)
  also have "M mod 3233 = M" using assms by simp
  finally show ?thesis .
qed

lemma power_multiple:
  fixes M p q k :: nat
  assumes f: "M mod p \<noteq> 0 \<Longrightarrow> M ^ q mod p = 1" and p: "1 < p" and q: "0 < q"
    and d: "p dvd M ^ k"
  shows "p dvd M"
proof (rule ccontr)
  assume "\<not> p dvd M"
  then have nz: "M mod p \<noteq> 0" by (simp add: dvd_eq_mod_eq_0)
  have "(M ^ k) ^ q = (M ^ q) ^ k"
    by (simp only: power_mult [symmetric] mult.commute)
  then have "(M ^ k) ^ q mod p = (M ^ q mod p) ^ k mod p"
    by (simp only: power_mod)
  also have "\<dots> = 1"
    using p by (simp only: f [OF nz] power_one) simp
  finally have one: "(M ^ k) ^ q mod p = 1" .
  from d have "p dvd (M ^ k) ^ q"
    using q by (simp add: dvd_power_same [of p "M ^ k" q] dvd_trans [OF d dvd_power])
  then have "(M ^ k) ^ q mod p = 0" by (simp add: dvd_eq_mod_eq_0)
  with one show False by simp
qed

lemma power_multiple_3233:
  fixes M :: nat
  assumes "M < 3233" "3233 dvd M ^ k"
  shows "M = 0"
proof -
  have "(53 :: nat) dvd 3233" "(61 :: nat) dvd 3233" by simp_all
  with assms(2) have p: "53 dvd M ^ k" "61 dvd M ^ k"
    by (meson dvd_trans)+
  have "53 dvd M"
    by (rule power_multiple [OF _ _ _ p(1), of 52]) (simp_all add: fermat_53)
  moreover have "61 dvd M"
    by (rule power_multiple [OF _ _ _ p(2), of 60]) (simp_all add: fermat_61)
  moreover note coprime_53_61
  ultimately have "53 * 61 dvd M" by (rule divides_mult)
  then have "3233 dvd M" by simp
  with assms(1) show ?thesis
    by (auto elim!: dvdE)
qed

section \<open>The derived Montgomery parameters\<close>

lemma compute_R2_value:
  assumes "n0 \<noteq> 0"
  shows "\<exists>r2. compute_R2_modN_32 n0 w = Some r2
           \<and> unat r2 = (2 ^ (32 * w) * 2 ^ (32 * w)) mod unat n0"
proof -
  define m :: u64 where "m = ucast n0"
  have um: "unat m = unat n0" by (simp add: m_def unat_up)
  have m0: "0 < unat m" using assms by (simp add: um unat_gt_0)
  have m32: "unat m < 2 ^ 32" using unat_u32_less [of n0] by (simp add: um)
  have step: "unat ((r * 2) mod m) = (unat r * 2) mod unat m" if "unat r < 2 ^ 32" for r :: u64
  proof -
    have "unat r * unat (2 :: u64) < 2 ^ LENGTH(64)" using that by simp
    then have "unat (r * 2) = unat r * 2"
      by (simp only: unat_mult_lem [THEN iffD1]) simp
    then show ?thesis by (simp add: unat_mod_distrib)
  qed
  have loop: "unat (fold (\<lambda>i r. (r * 2) mod m) [0..<k] (1 :: u64)) < 2 ^ 32
              \<and> unat (fold (\<lambda>i r. (r * 2) mod m) [0..<k] (1 :: u64)) mod unat m = 2 ^ k mod unat m"
    for k
  proof (induction k)
    case 0
    show ?case by simp
  next
    case (Suc k)
    define r where "r = fold (\<lambda>i r. (r * 2) mod m) [0..<k] (1 :: u64)"
    from Suc have r: "unat r < 2 ^ 32" "unat r mod unat m = 2 ^ k mod unat m"
      by (simp_all add: r_def)
    have v: "unat ((r * 2) mod m) = (unat r * 2) mod unat m"
      using r(1) by (rule step)
    have "(unat r * 2) mod unat m = ((unat r mod unat m) * 2) mod unat m"
      by (simp add: mod_mult_left_eq)
    also have "\<dots> = (2 ^ k * 2) mod unat m"
      by (simp only: r(2) mod_mult_left_eq)
    finally have "unat ((r * 2) mod m) mod unat m = 2 ^ Suc k mod unat m"
      by (simp add: v mult.commute)
    moreover have "unat ((r * 2) mod m) < 2 ^ 32"
      using m0 m32 by (simp only: v) (meson less_trans mod_less_divisor)
    ultimately show ?case by (simp add: r_def [symmetric])
  qed
  define r where "r = fold (\<lambda>i r. (r * 2) mod m) [0..<32 * w] (1 :: u64)"
  from loop [of "32 * w"] have r: "unat r < 2 ^ 32" "unat r mod unat m = 2 ^ (32 * w) mod unat m"
    by (simp_all add: r_def)
  have "unat r * unat r < 2 ^ 32 * 2 ^ 32"
    using r(1) by (intro mult_strict_mono) simp_all
  then have "unat r * unat r < 2 ^ LENGTH(64)" by simp
  then have "unat (r * r) = unat r * unat r"
    by (simp only: unat_mult_lem [THEN iffD1])
  then have sq: "unat ((r * r) mod m) = (unat r * unat r) mod unat m"
    by (simp add: unat_mod_distrib)
  also have "\<dots> = ((unat r mod unat m) * (unat r mod unat m)) mod unat m"
    by (simp add: mod_mult_eq)
  also have "\<dots> = (2 ^ (32 * w) * 2 ^ (32 * w)) mod unat m"
    by (simp only: r(2) mod_mult_eq)
  finally have v: "unat ((r * r) mod m) = (2 ^ (32 * w) * 2 ^ (32 * w)) mod unat n0"
    by (simp only: um)
  have "unat ((r * r) mod m) < unat m"
    using m0 by (simp only: sq) simp
  then have "unat ((r * r) mod m) < 2 ^ 32" using m32 by simp
  then have "unat (ucast ((r * r) mod m) :: u32) = unat ((r * r) mod m)"
    by (simp add: unat_down)
  with v assms show ?thesis
    by (simp add: compute_R2_modN_32_def m_def [symmetric] r_def [symmetric] Let_def)
qed

section \<open>Timeouts of the accelerator port\<close>

lemma status_state_Suc:
  "status_state dev b d (Suc k) = snd (dev_in dev (REG_STATUS b) (status_state dev b d k))"
  by (induction k arbitrary: d) simp_all

lemma status_seq_shift:
  "status_seq dev b (snd (dev_in dev (REG_STATUS b) d)) k = status_seq dev b d (Suc k)"
  by (simp add: status_seq_def)

lemma status_reads_Cons:
  "status_reads dev b d (Suc n) =
     In32 (REG_STATUS b) (fst (dev_in dev (REG_STATUS b) d))
       # status_reads dev b (snd (dev_in dev (REG_STATUS b) d)) n"
proof -
  have "[0..<Suc n] = 0 # map Suc [0..<n]"
    by (simp add: upt_conv_Cons map_Suc_upt del: upt_Suc)
  then show ?thesis
    by (simp add: status_reads_def status_seq_def comp_def del: upt_Suc)
qed

text \<open>
  The two ways out of the poll loop: all reads up to the limit find bit 0 clear, or
  read number \<open>k\<close> is the first that finds it set.
\<close>

lemma poll_done_timeout:
  assumes "polls \<le> HW_DONE_TIMEOUT"
    and "\<forall>k. polls + k \<le> HW_DONE_TIMEOUT \<longrightarrow> status_seq dev b d k AND 1 = 0"
  shows "poll_done dev b polls (d, log) =
           (False, (status_state dev b d (HW_DONE_TIMEOUT + 1 - polls),
                    log @ status_reads dev b d (HW_DONE_TIMEOUT + 1 - polls)))"
  using assms
proof (induction "HW_DONE_TIMEOUT - polls" arbitrary: polls d log)
  case 0
  then have p: "polls = HW_DONE_TIMEOUT" by simp
  from "0.prems"(2) [rule_format, of 0] p have "status_seq dev b d 0 AND 1 = 0" by simp
  then have z: "fst (dev_in dev (REG_STATUS b) d) AND 1 = 0" by (simp add: status_seq_def)
  have one: "HW_DONE_TIMEOUT + 1 - polls = Suc 0" using p by simp
  show ?case
    unfolding one
    by (subst poll_done.simps)
       (use z p in \<open>simp add: Xil_In32_def split_beta status_reads_def status_seq_def\<close>)
next
  case (Suc n)
  then have p: "polls < HW_DONE_TIMEOUT" by simp
  from Suc.prems(2) [rule_format, of 0] p have "status_seq dev b d 0 AND 1 = 0" by simp
  then have z: "fst (dev_in dev (REG_STATUS b) d) AND 1 = 0" by (simp add: status_seq_def)
  define d' where "d' = snd (dev_in dev (REG_STATUS b) d)"
  define v where "v = fst (dev_in dev (REG_STATUS b) d)"
  have rest: "\<forall>k. (polls + 1) + k \<le> HW_DONE_TIMEOUT \<longrightarrow> status_seq dev b d' k AND 1 = 0"
    using Suc.prems(2) by (simp add: d'_def status_seq_shift)
  have n: "n = HW_DONE_TIMEOUT - (polls + 1)" using Suc.hyps(2) by simp
  have ih: "poll_done dev b (polls + 1) (d', log @ [In32 (REG_STATUS b) v]) =
           (False, (status_state dev b d' (HW_DONE_TIMEOUT + 1 - (polls + 1)),
                    (log @ [In32 (REG_STATUS b) v]) @ status_reads dev b d' (HW_DONE_TIMEOUT + 1 - (polls + 1))))"
    using p rest by (intro Suc.hyps(1) [OF n]) simp_all
  have cnt: "HW_DONE_TIMEOUT + 1 - polls = Suc (HW_DONE_TIMEOUT + 1 - (polls + 1))"
    using p by simp
  have step: "poll_done dev b polls (d, log) = poll_done dev b (polls + 1) (d', log @ [In32 (REG_STATUS b) v])"
    by (subst poll_done.simps) (use z p in \<open>simp add: Xil_In32_def split_beta d'_def v_def\<close>)
  show ?case
    unfolding step ih cnt status_reads_Cons
    by (simp add: d'_def v_def)
qed

lemma poll_done_success:
  assumes "polls + k \<le> HW_DONE_TIMEOUT"
    and "\<forall>j<k. status_seq dev b d j AND 1 = 0"
    and "status_seq dev b d k AND 1 \<noteq> 0"
  shows "poll_done dev b polls (d, log) =
           (True, (status_state dev b d (Suc k), log @ status_reads dev b d (Suc k)))"
  using assms
proof (induction k arbitrary: polls d log)
  case 0
  then have nz: "fst (dev_in dev (REG_STATUS b) d) AND 1 \<noteq> 0" by (simp add: status_seq_def)
  show ?case
    by (subst poll_done.simps)
       (use nz in \<open>simp add: Xil_In32_def split_beta status_reads_def status_seq_def\<close>)
next
  case (Suc k)
  from Suc.prems(2) have "status_seq dev b d 0 AND 1 = 0" by simp
  then have z: "fst (dev_in dev (REG_STATUS b) d) AND 1 = 0" by (simp add: status_seq_def)
  define d' where "d' = snd (dev_in dev (REG_STATUS b) d)"
  define v where "v = fst (dev_in dev (REG_STATUS b) d)"
  have step: "poll_done dev b polls (d, log) = poll_done dev b (polls + 1) (d', log @ [In32 (REG_STATUS b) v])"
    by (subst poll_done.simps) (use z Suc.prems(1) in \<open>simp add: Xil_In32_def split_beta d'_def v_def\<close>)
  have ih: "poll_done dev b (polls + 1) (d', log @ [In32 (REG_STATUS b) v]) =
           (True, (status_state dev b d' (Suc k), (log @ [In32 (REG_STATUS b) v]) @ status_reads dev b d' (Suc k)))"
    using Suc.prems by (intro Suc.IH) (simp_all add: d'_def status_seq_shift)
  show ?case
    unfolding step ih status_reads_Cons [of dev b d "Suc k"]
    by (simp add: d'_def v_def)
qed

lemma poll_done_cases:
  assumes "poll_done dev b 0 (d, log) = (ok, s')"
  shows "(\<not> ok \<and> (\<forall>k\<le>HW_DONE_TIMEOUT. status_seq dev b d k AND 1 = 0)
            \<and> s' = (status_state dev b d (HW_DONE_TIMEOUT + 1),
                     log @ status_reads dev b d (HW_DONE_TIMEOUT + 1)))
       \<or> (ok \<and> (\<exists>k\<le>HW_DONE_TIMEOUT. (\<forall>j<k. status_seq dev b d j AND 1 = 0)
                   \<and> status_seq dev b d k AND 1 \<noteq> 0
                   \<and> s' = (status_state dev b d (Suc k), log @ status_reads dev b d (Suc k))))"
proof (cases "\<forall>k\<le>HW_DONE_TIMEOUT. status_seq dev b d k AND 1 = 0")
  case True
  then have "poll_done dev b 0 (d, log) =
           (False, (status_state dev b d (HW_DONE_TIMEOUT + 1 - 0),
                    log @ status_reads dev b d (HW_DONE_TIMEOUT + 1 - 0)))"
    by (intro poll_done_timeout) simp_all
  with assms True show ?thesis by simp
next
  case False
  define k where "k = (LEAST k. status_seq dev b d k AND 1 \<noteq> 0)"
  from False obtain k0 where k0: "k0 \<le> HW_DONE_TIMEOUT" "status_seq dev b d k0 AND 1 \<noteq> 0"
    by blast
  have set_k: "status_seq dev b d k AND 1 \<noteq> 0"
    unfolding k_def using k0(2) by (rule LeastI)
  have k_le: "k \<le> k0"
    unfolding k_def using k0(2) by (rule Least_le)
  have clear: "\<forall>j<k. status_seq dev b d j AND 1 = 0"
    unfolding k_def using not_less_Least by blast
  have "poll_done dev b 0 (d, log) =
          (True, (status_state dev b d (Suc k), log @ status_reads dev b d (Suc k)))"
    using k_le k0(1) clear set_k by (intro poll_done_success) simp_all
  with assms k_le k0(1) clear set_k have "ok \<and> k \<le> HW_DONE_TIMEOUT \<and> (\<forall>j<k. status_seq dev b d j AND 1 = 0)
                   \<and> status_seq dev b d k AND 1 \<noteq> 0
                   \<and> s' = (status_state dev b d (Suc k), log @ status_reads dev b d (Suc k))"
    by simp
  then show ?thesis by blast
qed

text \<open>The trace of one invocation before the poll.\<close>

lemma write_operands_log:
  "snd (fold (write_operand_word dev b A B N) [0..<n] (d, log)) =
     log @ concat (map (\<lambda>i. [Out32 (REG_A b i) (A ! i), Out32 (REG_B b i) (B ! i), Out32 (REG_N b i) (N ! i)]) [0..<n])"
  by (induction n) (simp_all add: write_operand_word_def Xil_Out32_def split_beta)

lemma hw_start_log:
  "snd (hw_start dev b n A B N nprime (d, log)) = log @ start_events b n A B N nprime"
  by (simp add: hw_start_def Xil_Out32_def split_beta write_operands_log start_events_def)

lemma read_result_log:
  assumes "n \<le> length R"
    and "fold (read_result_word dev b) [0..<n] (R, (d, log)) = (R', (d', log'))"
  shows "log' = log @ map (\<lambda>i. In32 (REG_RES b i) (R' ! i)) [0..<n]
         \<and> length R' = length R \<and> drop n R' = drop n R"
  using assms
proof (induction n arbitrary: R' d' log')
  case 0
  then show ?case by simp
next
  case (Suc n)
  obtain R1 d1 log1 where f: "fold (read_result_word dev b) [0..<n] (R, (d, log)) = (R1, (d1, log1))"
    by (metis prod.exhaust)
  from Suc.prems(1) have n: "n \<le> length R" "n < length R" by simp_all
  from Suc.IH [OF n(1) f]
  have ih: "log1 = log @ map (\<lambda>i. In32 (REG_RES b i) (R1 ! i)) [0..<n]"
    "length R1 = length R" "drop n R1 = drop n R" by simp_all
  define v where "v = fst (dev_in dev (REG_RES b n) d1)"
  have "fold (read_result_word dev b) [0..<Suc n] (R, (d, log)) =
          read_result_word dev b n (R1, (d1, log1))"
    by (simp add: f)
  with Suc.prems(2) have "read_result_word dev b n (R1, (d1, log1)) = (R', (d', log'))"
    by simp
  then have r: "R' = R1[n := v]" "log' = log1 @ [In32 (REG_RES b n) v]"
    by (auto simp add: read_result_word_def Xil_In32_def split_beta v_def)
  have "map (\<lambda>i. In32 (REG_RES b i) (R' ! i)) [0..<n] = map (\<lambda>i. In32 (REG_RES b i) (R1 ! i)) [0..<n]"
    by (simp add: r(1))
  moreover have "R' ! n = v" using n ih(2) by (simp add: r(1))
  moreover have "drop (Suc n) R' = drop (Suc n) R"
  proof -
    have "drop (Suc n) R' = drop (Suc n) R1" by (simp add: r(1))
    also have "\<dots> = drop 1 (drop n R1)" by simp
    also have "\<dots> = drop 1 (drop n R)" by (simp only: ih(3))
    finally show ?thesis by simp
  qed
  ultimately show ?case
    using ih by (simp add: r)
qed

text \<open>What one invocation does to the log and to the output array.\<close>

lemma montgomery_mul_hw_cases:
  assumes "montgomery_mul_hw dev b n A B N nprime R (d, log) = (ok, R', (d', log'))"
    and "n \<le> length R"
  defines "d3 \<equiv> fst (hw_start dev b n A B N nprime (d, log))"
  shows "(\<not> ok \<and> (\<forall>k\<le>HW_DONE_TIMEOUT. status_seq dev b d3 k AND 1 = 0) \<and> R' = R
            \<and> log' = log @ start_events b n A B N nprime @ status_reads dev b d3 (HW_DONE_TIMEOUT + 1))
       \<or> (ok \<and> (\<exists>k\<le>HW_DONE_TIMEOUT. (\<forall>j<k. status_seq dev b d3 j AND 1 = 0)
                   \<and> status_seq dev b d3 k AND 1 \<noteq> 0
                   \<and> log' = log @ start_events b n A B N nprime @ status_reads dev b d3 (Suc k)
                              @ map (\<lambda>i. In32 (REG_RES b i) (R' ! i)) [0..<n])
             \<and> length R' = length R \<and> drop n R' = drop n R)"
proof -
  define log3 where "log3 = log @ start_events b n A B N nprime"
  have "snd (hw_start dev b n A B N nprime (d, log)) = log3"
    by (simp add: hw_start_log log3_def)
  then have s3: "hw_start dev b n A B N nprime (d, log) = (d3, log3)"
    by (simp add: d3_def prod_eq_iff)
  obtain fin s4 where p: "poll_done dev b 0 (d3, log3) = (fin, s4)"
    by (metis prod.exhaust)
  from poll_done_cases [OF p] show ?thesis
  proof
    assume a: "\<not> fin \<and> (\<forall>k\<le>HW_DONE_TIMEOUT. status_seq dev b d3 k AND 1 = 0)
            \<and> s4 = (status_state dev b d3 (HW_DONE_TIMEOUT + 1),
                     log3 @ status_reads dev b d3 (HW_DONE_TIMEOUT + 1))"
    with assms(1) have "ok = False" "R' = R" "(d', log') = s4"
      by (simp_all add: montgomery_mul_hw_def s3 p)
    with a show ?thesis by (simp add: log3_def)
  next
    assume a: "fin \<and> (\<exists>k\<le>HW_DONE_TIMEOUT. (\<forall>j<k. status_seq dev b d3 j AND 1 = 0)
                   \<and> status_seq dev b d3 k AND 1 \<noteq> 0
                   \<and> s4 = (status_state dev b d3 (Suc k), log3 @ status_reads dev b d3 (Suc k)))"
    then obtain k where k: "k \<le> HW_DONE_TIMEOUT" "\<forall>j<k. status_seq dev b d3 j AND 1 = 0"
      "status_seq dev b d3 k AND 1 \<noteq> 0"
      "s4 = (status_state dev b d3 (Suc k), log3 @ status_reads dev b d3 (Suc k))"
      by blast
    from a assms(1) have ok: "ok"
      and f: "fold (read_result_word dev b) [0..<n] (R, s4) = (R', (d', log'))"
      by (simp_all add: montgomery_mul_hw_def s3 p split_beta split: if_splits)
    from read_result_log [OF assms(2) f [unfolded k(4)]]
    have "log' = (log3 @ status_reads dev b d3 (Suc k)) @ map (\<lambda>i. In32 (REG_RES b i) (R' ! i)) [0..<n]"
      "length R' = length R" "drop n R' = drop n R" by simp_all
    with ok k(1,2,3) show ?thesis
      unfolding log3_def by auto
  qed
qed

lemma read_addrs_append: "read_addrs (xs @ ys) = read_addrs xs @ read_addrs ys"
  by (induction xs rule: read_addrs.induct) simp_all

lemma read_addrs_start_events: "read_addrs (start_events b n A B N nprime) = []"
  by (induction n) (simp_all add: start_events_def read_addrs_append)

lemma read_addrs_status_reads: "read_addrs (status_reads dev b d n) = replicate n (REG_STATUS b)"
  by (induction n) (simp_all add: status_reads_def read_addrs_append replicate_append_same)

lemma reg_offset_neq:
  assumes "x < 2 ^ 32" "y < 2 ^ 32" "x \<noteq> y"
  shows "b + of_nat x \<noteq> (b + of_nat y :: u32)"
proof
  assume "b + of_nat x = (b + of_nat y :: u32)"
  then have "(of_nat x :: u32) = of_nat y" by simp
  then have "unat (of_nat x :: u32) = unat (of_nat y :: u32)" by simp
  with assms show False by (simp add: unat_of_nat)
qed

lemma REG_as_offset:
  "REG_A b i = b + of_nat (4 * i)"
  "REG_B b i = b + of_nat (512 + 4 * i)"
  "REG_N b i = b + of_nat (1024 + 4 * i)"
  "REG_RES b i = b + of_nat (1536 + 4 * i)"
  "REG_NPRIME b = b + of_nat 2048"
  "REG_CONTROL b = b + of_nat 2052"
  "REG_STATUS b = b + of_nat 2056"
  by (simp_all add: REG_A_def REG_B_def REG_N_def REG_RES_def REG_NPRIME_def REG_CONTROL_def
      REG_STATUS_def)

lemma REG_distinct:
  assumes "i \<le> MAX_WORDS"
  shows "REG_A b i \<noteq> REG_CONTROL b" "REG_B b i \<noteq> REG_CONTROL b" "REG_N b i \<noteq> REG_CONTROL b"
    "REG_NPRIME b \<noteq> REG_CONTROL b" "REG_RES b i \<noteq> REG_STATUS b"
  unfolding REG_as_offset using assms
  by (intro reg_offset_neq; simp add: MAX_WORDS_def)+

lemma n_start_append: "n_start b (xs @ ys) = n_start b xs + n_start b ys"
  by (simp add: n_start_def)

lemma n_done_append: "n_done b (xs @ ys) = n_done b xs + n_done b ys"
  by (simp add: n_done_def)

lemma n_start_operands:
  assumes "n \<le> MAX_WORDS"
  shows "n_start b (concat (map (\<lambda>i. [Out32 (REG_A b i) (A ! i), Out32 (REG_B b i) (B ! i),
           Out32 (REG_N b i) (N ! i)]) [0..<n])) = 0"
  using assms
proof (induction n)
  case 0
  then show ?case by (simp add: n_start_def)
next
  case (Suc n)
  then have "n \<le> MAX_WORDS" by simp
  with Suc show ?case
    by (simp add: n_start_append) (simp add: n_start_def REG_distinct)
qed

lemma n_done_operands:
  "n_done b (concat (map (\<lambda>i. [Out32 (REG_A b i) (A ! i), Out32 (REG_B b i) (B ! i),
           Out32 (REG_N b i) (N ! i)]) [0..<n])) = 0"
  by (induction n) (simp_all add: n_done_def)

lemma n_start_start_events:
  "n \<le> MAX_WORDS \<Longrightarrow> n_start b (start_events b n A B N nprime) = 1"
  unfolding start_events_def n_start_append
  by (simp add: n_start_operands) (simp add: n_start_def REG_distinct)

lemma n_done_start_events: "n_done b (start_events b n A B N nprime) = 0"
  unfolding start_events_def n_done_append
  by (simp add: n_done_operands) (simp add: n_done_def)

lemma n_start_status_reads: "n_start b (status_reads dev b d n) = 0"
  by (simp add: n_start_def status_reads_def filter_empty_conv)

lemma n_done_status_reads_clear:
  "\<forall>k<n. status_seq dev b d k AND 1 = 0 \<Longrightarrow> n_done b (status_reads dev b d n) = 0"
  by (simp add: n_done_def status_reads_def filter_empty_conv)

lemma status_reads_snoc:
  "status_reads dev b d (Suc n) = status_reads dev b d n @ [In32 (REG_STATUS b) (status_seq dev b d n)]"
  by (simp add: status_reads_def)

lemma n_done_status_reads_set:
  assumes "\<forall>j<k. status_seq dev b d j AND 1 = 0" "status_seq dev b d k AND 1 \<noteq> 0"
  shows "n_done b (status_reads dev b d (Suc k)) = 1"
  unfolding status_reads_snoc n_done_append
  using assms by (simp add: n_done_status_reads_clear) (simp add: n_done_def)

lemma n_start_res_reads: "n_start b (map (\<lambda>i. In32 (REG_RES b i) (f i)) [0..<n]) = 0"
  by (simp add: n_start_def filter_empty_conv)

lemma n_done_res_reads:
  "n \<le> MAX_WORDS \<Longrightarrow> n_done b (map (\<lambda>i. In32 (REG_RES b i) (f i)) [0..<n]) = 0"
  by (simp add: n_done_def filter_empty_conv REG_distinct)

lemma start_events_split:
  "start_events b n A B N nprime =
     (concat (map (\<lambda>i. [Out32 (REG_A b i) (A ! i), Out32 (REG_B b i) (B ! i),
           Out32 (REG_N b i) (N ! i)]) [0..<n]) @ [Out32 (REG_NPRIME b) nprime])
     @ [Out32 (REG_CONTROL b) 1]"
  by (simp add: start_events_def)

text \<open>The trace of one invocation.\<close>

lemma montgomery_mul_hw_trace:
  assumes "montgomery_mul_hw dev b n A B N nprime R (d, log) = (ok, R', (d', log'))"
    and "n \<le> length R" "n \<le> MAX_WORDS"
  shows "\<exists>evs. log' = log @ evs \<and> trace_inv b ok evs \<and> length R' = length R"
proof -
  define d3 where "d3 = fst (hw_start dev b n A B N nprime (d, log))"
  from montgomery_mul_hw_cases [OF assms(1,2), folded d3_def] show ?thesis
  proof
    assume a: "\<not> ok \<and> (\<forall>k\<le>HW_DONE_TIMEOUT. status_seq dev b d3 k AND 1 = 0) \<and> R' = R
            \<and> log' = log @ start_events b n A B N nprime @ status_reads dev b d3 (HW_DONE_TIMEOUT + 1)"
    define evs where "evs = start_events b n A B N nprime @ status_reads dev b d3 (HW_DONE_TIMEOUT + 1)"
    define vs where "vs = map (status_seq dev b d3) [0..<HW_DONE_TIMEOUT + 1]"
    have clear: "\<forall>k<HW_DONE_TIMEOUT + 1. status_seq dev b d3 k AND 1 = 0"
      using a by simp
    have "n_start b evs = 1"
      by (simp add: evs_def n_start_append n_start_start_events assms(3) n_start_status_reads)
    moreover have "n_done b evs = 0"
      using clear by (simp add: evs_def n_done_append n_done_start_events n_done_status_reads_clear)
    ultimately have cnt: "n_start b evs = Suc (n_done b evs)" by simp
    have "status_reads dev b d3 (HW_DONE_TIMEOUT + 1) = map (In32 (REG_STATUS b)) vs"
      by (simp add: status_reads_def vs_def comp_def del: upt_Suc)
    then have "evs = (concat (map (\<lambda>i. [Out32 (REG_A b i) (A ! i), Out32 (REG_B b i) (B ! i),
           Out32 (REG_N b i) (N ! i)]) [0..<n]) @ [Out32 (REG_NPRIME b) nprime])
           @ Out32 (REG_CONTROL b) 1 # map (In32 (REG_STATUS b)) vs"
      by (simp add: evs_def start_events_def)
    moreover have "length vs = HW_DONE_TIMEOUT + 1" by (simp add: vs_def del: upt_Suc)
    moreover have "\<forall>v\<in>set vs. v AND 1 = 0" using clear by (auto simp: vs_def simp del: upt_Suc)
    ultimately have "trace_inv b False evs"
      unfolding trace_inv_def using cnt by blast
    with a show ?thesis by (auto simp: evs_def)
  next
    assume a: "ok \<and> (\<exists>k\<le>HW_DONE_TIMEOUT. (\<forall>j<k. status_seq dev b d3 j AND 1 = 0)
                   \<and> status_seq dev b d3 k AND 1 \<noteq> 0
                   \<and> log' = log @ start_events b n A B N nprime @ status_reads dev b d3 (Suc k)
                              @ map (\<lambda>i. In32 (REG_RES b i) (R' ! i)) [0..<n])
             \<and> length R' = length R \<and> drop n R' = drop n R"
    then obtain k where k: "\<forall>j<k. status_seq dev b d3 j AND 1 = 0"
      "status_seq dev b d3 k AND 1 \<noteq> 0"
      "log' = log @ start_events b n A B N nprime @ status_reads dev b d3 (Suc k)
                              @ map (\<lambda>i. In32 (REG_RES b i) (R' ! i)) [0..<n]"
      by blast
    define evs where "evs = start_events b n A B N nprime @ status_reads dev b d3 (Suc k)
                              @ map (\<lambda>i. In32 (REG_RES b i) (R' ! i)) [0..<n]"
    have "n_start b evs = 1"
      unfolding evs_def n_start_append
      by (simp only: n_start_start_events [OF assms(3)] n_start_status_reads n_start_res_reads)
    moreover have "n_done b evs = 1"
      unfolding evs_def n_done_append
      by (simp only: n_done_start_events n_done_status_reads_set [OF k(1,2)]
          n_done_res_reads [OF assms(3)])
    ultimately have "trace_inv b True evs"
      by (simp add: trace_inv_def)
    with a k(3) show ?thesis by (auto simp: evs_def)
  qed
qed

lemma trace_inv_Nil: "trace_inv b True []"
  by (simp add: trace_inv_def n_start_def n_done_def)

lemma trace_inv_append:
  assumes "trace_inv b True xs" "trace_inv b ok ys"
  shows "trace_inv b ok (xs @ ys)"
proof (cases ok)
  case True
  with assms show ?thesis by (simp add: trace_inv_def n_start_append n_done_append)
next
  case False
  with assms(2) obtain pre vs where t: "n_start b ys = Suc (n_done b ys)"
    "ys = pre @ Out32 (REG_CONTROL b) 1 # map (In32 (REG_STATUS b)) vs"
    "length vs = HW_DONE_TIMEOUT + 1" "\<forall>v\<in>set vs. v AND 1 = 0"
    unfolding trace_inv_def by blast
  have "xs @ ys = (xs @ pre) @ Out32 (REG_CONTROL b) 1 # map (In32 (REG_STATUS b)) vs"
    by (simp add: t(2))
  moreover have "n_start b (xs @ ys) = Suc (n_done b (xs @ ys))"
    using assms(1) t(1) by (simp add: trace_inv_def n_start_append n_done_append)
  ultimately show ?thesis
    using False t(3,4) unfolding trace_inv_def by blast
qed

lemma montgomery_mul_hw_fail_unchanged:
  "montgomery_mul_hw dev b n A B N nprime R s = (False, R', s') \<Longrightarrow> R' = R"
  by (simp add: montgomery_mul_hw_def split_beta split: if_splits)

lemma modexp_hw_loop_trace:
  assumes "modexp_hw_loop dev b exp N nprime n bits x a (d, log) = (ok, x', a', (d', log'))"
    and "n \<le> length x" "n \<le> length a" "n \<le> MAX_WORDS"
  shows "\<exists>evs. log' = log @ evs \<and> trace_inv b ok evs
               \<and> length x' = length x \<and> length a' = length a"
  using assms
proof (induction bits arbitrary: x a d log)
  case Nil
  then show ?case by (simp add: trace_inv_Nil)
next
  case (Cons bt bs)
  obtain ok1 x1 d1 log1 where c1:
    "(if drop_bit bt exp AND 1 \<noteq> 0 then montgomery_mul_hw dev b n x a N nprime x (d, log)
      else (True, x, (d, log))) = (ok1, x1, (d1, log1))"
    by (metis prod.exhaust)
  have "\<exists>evs. log1 = log @ evs \<and> trace_inv b ok1 evs \<and> length x1 = length x"
  proof (cases "drop_bit bt exp AND 1 \<noteq> 0")
    case True
    with c1 have "montgomery_mul_hw dev b n x a N nprime x (d, log) = (ok1, x1, (d1, log1))"
      by simp
    from montgomery_mul_hw_trace [OF this Cons.prems(2,4)] show ?thesis .
  next
    case False
    with c1 show ?thesis by (simp add: trace_inv_Nil)
  qed
  then obtain evs1 where e1: "log1 = log @ evs1" "trace_inv b ok1 evs1" "length x1 = length x"
    by blast
  show ?case
  proof (cases ok1)
    case False
    with Cons.prems(1) c1 have "ok = False" "x' = x1" "a' = a" "log' = log1"
      by (simp_all del: montgomery_mul_hw_def)
    with e1 False show ?thesis by simp
  next
    case ok1: True
    obtain ok2 a2 d2 log2 where c2:
      "montgomery_mul_hw dev b n a a N nprime a (d1, log1) = (ok2, a2, (d2, log2))"
      by (metis prod.exhaust)
    from montgomery_mul_hw_trace [OF c2 Cons.prems(3,4)]
    obtain evs2 where e2: "log2 = log1 @ evs2" "trace_inv b ok2 evs2" "length a2 = length a"
      by blast
    have e12: "trace_inv b ok2 (evs1 @ evs2)"
      using e1(2) e2(2) ok1 by (simp add: trace_inv_append)
    show ?thesis
    proof (cases ok2)
      case False
      with Cons.prems(1) c1 c2 ok1 have "ok = False" "x' = x1" "a' = a2" "log' = log2"
        by simp_all
      with e1 e2 e12 False show ?thesis by simp
    next
      case True
      with Cons.prems(1) c1 c2 ok1
      have "modexp_hw_loop dev b exp N nprime n bs x1 a2 (d2, log2) = (ok, x', a', (d', log'))"
        by simp
      from Cons.IH [OF this] Cons.prems(2,3,4) e1(3) e2(3)
      obtain evs3 where e3: "log' = log2 @ evs3" "trace_inv b ok evs3"
        "length x' = length x1" "length a' = length a2"
        by auto
      from e12 True have "trace_inv b True (evs1 @ evs2)" by simp
      from trace_inv_append [OF this e3(2)] have "trace_inv b ok ((evs1 @ evs2) @ evs3)" .
      with e1 e2 e3 show ?thesis by simp
    qed
  qed
qed

lemma modexp_hw_scalar_trace:
  assumes "modexp_hw_scalar dev b base exp exp_bits N nprime R2 result n (d, log)
             = (ok, result', (d', log'))"
    and "n \<le> length result" "n \<le> MAX_WORDS"
  shows "\<exists>evs. log' = log @ evs \<and> trace_inv b ok evs"
proof -
  define one where "one = bigint_set_u32 uninit_words 1 n"
  have len: "n \<le> length uninit_words" using assms(3) by (simp add: uninit_words_def)
  obtain ok1 x d1 log1 where c1:
    "montgomery_mul_hw dev b n one R2 N nprime uninit_words (d, log) = (ok1, x, (d1, log1))"
    by (metis prod.exhaust)
  from montgomery_mul_hw_trace [OF c1 len assms(3)]
  obtain evs1 where e1: "log1 = log @ evs1" "trace_inv b ok1 evs1" "length x = length uninit_words"
    by blast
  show ?thesis
  proof (cases ok1)
    case False
    with assms(1) c1 have "ok = False" "log' = log1"
      by (simp_all add: modexp_hw_scalar_def one_def [symmetric])
    with e1 False show ?thesis by simp
  next
    case ok1: True
    obtain ok2 a d2 log2 where c2:
      "montgomery_mul_hw dev b n base R2 N nprime uninit_words (d1, log1) = (ok2, a, (d2, log2))"
      by (metis prod.exhaust)
    from montgomery_mul_hw_trace [OF c2 len assms(3)]
    obtain evs2 where e2: "log2 = log1 @ evs2" "trace_inv b ok2 evs2" "length a = length uninit_words"
      by blast
    have e12: "trace_inv b ok2 (evs1 @ evs2)"
      using e1(2) e2(2) ok1 by (simp add: trace_inv_append)
    show ?thesis
    proof (cases ok2)
      case False
      with assms(1) c1 c2 ok1 have "ok = False" "log' = log2"
        by (simp_all add: modexp_hw_scalar_def one_def [symmetric])
      with e1 e2 e12 False show ?thesis by simp
    next
      case ok2: True
      obtain ok3 x3 a3 d3 log3 where c3:
        "modexp_hw_loop dev b exp N nprime n [0..<nat exp_bits] x a (d2, log2) = (ok3, x3, a3, (d3, log3))"
        by (metis prod.exhaust)
      from modexp_hw_loop_trace [OF c3] len e1(3) e2(3) assms(3)
      obtain evs3 where e3: "log3 = log2 @ evs3" "trace_inv b ok3 evs3" "length x3 = length x"
        by auto
      from e12 ok2 have "trace_inv b True (evs1 @ evs2)" by simp
      from trace_inv_append [OF this e3(2)] have e123: "trace_inv b ok3 ((evs1 @ evs2) @ evs3)" .
      show ?thesis
      proof (cases ok3)
        case False
        with assms(1) c1 c2 c3 ok1 ok2 have "ok = False" "log' = log3"
          by (simp_all add: modexp_hw_scalar_def one_def [symmetric])
        with e1 e2 e3 e123 False show ?thesis by simp
      next
        case ok3: True
        obtain ok4 r4 d4 log4 where c4:
          "montgomery_mul_hw dev b n x3 one N nprime result (d3, log3) = (ok4, r4, (d4, log4))"
          by (metis prod.exhaust)
        from montgomery_mul_hw_trace [OF c4 assms(2,3)]
        obtain evs4 where e4: "log4 = log3 @ evs4" "trace_inv b ok4 evs4"
          by blast
        from e123 ok3 have "trace_inv b True ((evs1 @ evs2) @ evs3)" by simp
        from trace_inv_append [OF this e4(2)]
        have e1234: "trace_inv b ok4 (((evs1 @ evs2) @ evs3) @ evs4)" .
        from assms(1) c1 c2 c3 c4 ok1 ok2 ok3 have "ok = ok4" "log' = log4"
          by (simp_all add: modexp_hw_scalar_def one_def [symmetric] split: if_splits)
        with e1 e2 e3 e4 e1234 show ?thesis by simp
      qed
    qed
  qed
qed

lemma modexp_hw_scalar_fail_unchanged:
  assumes "modexp_hw_scalar dev b base exp exp_bits N nprime R2 result n s = (False, result', s')"
  shows "result' = result"
proof -
  define one where "one = bigint_set_u32 uninit_words 1 n"
  obtain ok1 x s1 where c1:
    "montgomery_mul_hw dev b n one R2 N nprime uninit_words s = (ok1, x, s1)"
    by (metis prod.exhaust)
  obtain ok2 a s2 where c2:
    "montgomery_mul_hw dev b n base R2 N nprime uninit_words s1 = (ok2, a, s2)"
    by (metis prod.exhaust)
  obtain ok3 x3 a3 s3 where c3:
    "modexp_hw_loop dev b exp N nprime n [0..<nat exp_bits] x a s2 = (ok3, x3, a3, s3)"
    by (metis prod.exhaust)
  obtain ok4 r4 s4 where c4:
    "montgomery_mul_hw dev b n x3 one N nprime result s3 = (ok4, r4, s4)"
    by (metis prod.exhaust)
  show ?thesis
  proof (cases "ok1 \<and> ok2 \<and> ok3")
    case False
    with assms c1 c2 c3 show ?thesis
      by (auto simp add: modexp_hw_scalar_def one_def [symmetric] split: if_splits)
  next
    case True
    with assms c1 c2 c3 c4 have "ok4 = False" "result' = r4"
      by (auto simp add: modexp_hw_scalar_def one_def [symmetric] split: if_splits)
    with c4 show ?thesis
      by (auto dest: montgomery_mul_hw_fail_unchanged)
  qed
qed

lemma status_state_dead: "status_state dead_dev b d k = d"
  by (induction k) (simp_all add: status_state_Suc dead_dev_def)

lemma status_seq_dead: "status_seq dead_dev b d k = 0"
  by (simp add: status_seq_def status_state_dead) (simp add: dead_dev_def)

lemma status_seq_ready: "status_seq ready_dev b d k = 1"
  by (simp add: status_seq_def) (simp add: ready_dev_def)

lemma status_state_late: "status_state late_dev b d k = d + k"
  by (induction k arbitrary: d) (simp_all add: late_dev_def)

lemma status_seq_late:
  "status_seq late_dev b d k = (if HW_DONE_TIMEOUT \<le> d + k then 1 else 0)"
  by (simp add: status_seq_def status_state_late) (simp add: late_dev_def)

lemma hw_start_late: "fst (hw_start late_dev b 1 A B N nprime (d, log)) = d"
  by (simp add: hw_start_def write_operand_word_def Xil_Out32_def late_dev_def split_beta)

lemma status_reads_late:
  "status_reads late_dev b 0 (Suc HW_DONE_TIMEOUT)
     = map (In32 (REG_STATUS b)) (replicate HW_DONE_TIMEOUT 0 @ [1])"
proof -
  have "map (\<lambda>k. In32 (REG_STATUS b) (status_seq late_dev b 0 k)) [0..<HW_DONE_TIMEOUT]
          = map (\<lambda>k. In32 (REG_STATUS b) 0) [0..<HW_DONE_TIMEOUT]"
    by (rule map_cong) (simp_all add: status_seq_late)
  also have "\<dots> = map (In32 (REG_STATUS b)) (replicate HW_DONE_TIMEOUT 0)"
    by (simp add: map_replicate_const)
  finally show ?thesis
    unfolding status_reads_snoc by (simp add: status_reads_def status_seq_late)
qed

lemma montgomery_mul_hw_dead:
  "fst (montgomery_mul_hw dead_dev b n A B N nprime R s) = False"
proof -
  obtain d3 log3 where s3: "hw_start dead_dev b n A B N nprime s = (d3, log3)"
    by (metis prod.exhaust)
  have "fst (poll_done dead_dev b 0 (d3, log3)) = False"
    by (subst poll_done_timeout) (simp_all add: status_seq_dead)
  then show ?thesis
    by (simp add: montgomery_mul_hw_def s3 split_beta)
qed

lemma modexp_hw_scalar_dead:
  "fst (modexp_hw_scalar dead_dev b base exp exp_bits N nprime R2 result n s) = False"
  using montgomery_mul_hw_dead [of b n "bigint_set_u32 uninit_words 1 n" R2 N nprime uninit_words s]
  by (simp add: modexp_hw_scalar_def split_beta Let_def)

text \<open>
  C7 as it is stated, with failure exactly when the bit does not become set within
  \<open>HW_DONE_TIMEOUT\<close> polls, fails by one poll. On the device that shows the bit clear
  on the first \<open>HW_DONE_TIMEOUT\<close> status reads and set on the next, the bit has not
  become set within \<open>HW_DONE_TIMEOUT\<close> polls, and the call succeeds: its trace is the
  writes up to the start command, \<open>HW_DONE_TIMEOUT\<close> status reads of 0, one status read
  of 1, and the read of the result word.
\<close>

theorem montgomery_mul_hw_late_success:
  "\<exists>R' d'. montgomery_mul_hw late_dev 0 1 [1] [2] [3233] 7 [9] (0, [])
      = (True, R', (d', start_events 0 1 [1] [2] [3233] 7
            @ map (In32 (REG_STATUS 0)) (replicate HW_DONE_TIMEOUT 0 @ [1])
            @ [In32 (REG_RES 0 0) (R' ! 0)]))"
proof -
  obtain ok R' d' log' where
    e: "montgomery_mul_hw late_dev 0 1 [1] [2] [3233] 7 [9] (0, []) = (ok, R', (d', log'))"
    by (metis prod.exhaust)
  have l: "1 \<le> length [9 :: u32]" by simp
  note c = montgomery_mul_hw_cases [OF e l, unfolded hw_start_late]
  have t: "status_seq late_dev 0 0 HW_DONE_TIMEOUT AND 1 \<noteq> 0"
    by (simp add: status_seq_late)
  from c t have ok: ok by blast
  with c obtain k where k: "k \<le> HW_DONE_TIMEOUT" "status_seq late_dev 0 0 k AND 1 \<noteq> 0"
    "log' = [] @ start_events 0 1 [1] [2] [3233] 7 @ status_reads late_dev 0 0 (Suc k)
              @ map (\<lambda>i. In32 (REG_RES 0 i) (R' ! i)) [0..<1]"
    by blast
  from k(2) have "HW_DONE_TIMEOUT \<le> k"
    by (simp add: status_seq_late split: if_splits)
  with k(1) have "k = HW_DONE_TIMEOUT" by simp
  with k(3) have "log' = start_events 0 1 [1] [2] [3233] 7
            @ map (In32 (REG_STATUS 0)) (replicate HW_DONE_TIMEOUT 0 @ [1])
            @ [In32 (REG_RES 0 0) (R' ! 0)]"
    by (simp only: status_reads_late) simp
  with e ok show ?thesis by simp
qed

text \<open>
  C7, amended: the bound is \<open>HW_DONE_TIMEOUT + 1\<close> status reads. For any device,
  \<open>montgomery_mul_hw\<close> fails exactly when bit 0 of the status register is clear on each
  of the first \<open>HW_DONE_TIMEOUT + 1\<close> reads after the start command, the reads number
  \<open>0\<close> to \<open>HW_DONE_TIMEOUT\<close>: the loop counts the polls that found the bit clear and
  gives up when the count exceeds \<open>HW_DONE_TIMEOUT\<close>. On failure
  every register read of the invocation is a read of the status register, none of the
  result bank, and the output array is unchanged. On success the poll is followed by
  exactly \<open>n\<close> reads, of the result registers \<open>0\<close> to \<open>n - 1\<close> in order, word \<open>i\<close> of the
  output array is the value read from result register \<open>i\<close>, and the words from \<open>n\<close> on
  are unchanged.
\<close>

theorem montgomery_mul_hw_fails_iff_timeout:
  assumes "montgomery_mul_hw dev b n A B N nprime R (d, log) = (ok, R', (d', log'))"
    and "n \<le> length R"
  shows "(\<not> ok \<longleftrightarrow>
            (\<forall>k\<le>HW_DONE_TIMEOUT.
               status_seq dev b (fst (hw_start dev b n A B N nprime (d, log))) k AND 1 = 0))
       \<and> (\<not> ok \<longrightarrow> R' = R
             \<and> (\<exists>evs. log' = log @ evs
                   \<and> read_addrs evs = replicate (HW_DONE_TIMEOUT + 1) (REG_STATUS b)
                   \<and> (\<forall>i\<le>MAX_WORDS. REG_RES b i \<notin> set (read_addrs evs))))
       \<and> (ok \<longrightarrow> (\<exists>evs k. k \<le> HW_DONE_TIMEOUT
                   \<and> read_addrs evs = replicate (Suc k) (REG_STATUS b)
                   \<and> log' = log @ evs @ map (\<lambda>i. In32 (REG_RES b i) (R' ! i)) [0..<n])
             \<and> length R' = length R \<and> drop n R' = drop n R)"
proof -
  define d3 where "d3 = fst (hw_start dev b n A B N nprime (d, log))"
  from montgomery_mul_hw_cases [OF assms, folded d3_def] show ?thesis
  proof
    assume a: "\<not> ok \<and> (\<forall>k\<le>HW_DONE_TIMEOUT. status_seq dev b d3 k AND 1 = 0) \<and> R' = R
            \<and> log' = log @ start_events b n A B N nprime @ status_reads dev b d3 (HW_DONE_TIMEOUT + 1)"
    define evs where "evs = start_events b n A B N nprime @ status_reads dev b d3 (HW_DONE_TIMEOUT + 1)"
    have r: "read_addrs evs = replicate (HW_DONE_TIMEOUT + 1) (REG_STATUS b)"
      by (simp only: evs_def read_addrs_append read_addrs_start_events read_addrs_status_reads
          append_Nil)
    have "\<forall>i\<le>MAX_WORDS. REG_RES b i \<notin> set (read_addrs evs)"
      unfolding r using REG_distinct(5) [of _ b] by auto
    with a r have "\<exists>evs. log' = log @ evs
                   \<and> read_addrs evs = replicate (HW_DONE_TIMEOUT + 1) (REG_STATUS b)
                   \<and> (\<forall>i\<le>MAX_WORDS. REG_RES b i \<notin> set (read_addrs evs))"
      unfolding evs_def by blast
    with a show ?thesis unfolding d3_def by blast
  next
    assume a: "ok \<and> (\<exists>k\<le>HW_DONE_TIMEOUT. (\<forall>j<k. status_seq dev b d3 j AND 1 = 0)
                   \<and> status_seq dev b d3 k AND 1 \<noteq> 0
                   \<and> log' = log @ start_events b n A B N nprime @ status_reads dev b d3 (Suc k)
                              @ map (\<lambda>i. In32 (REG_RES b i) (R' ! i)) [0..<n])
             \<and> length R' = length R \<and> drop n R' = drop n R"
    then obtain k where k: "k \<le> HW_DONE_TIMEOUT" "status_seq dev b d3 k AND 1 \<noteq> 0"
      "log' = log @ start_events b n A B N nprime @ status_reads dev b d3 (Suc k)
                              @ map (\<lambda>i. In32 (REG_RES b i) (R' ! i)) [0..<n]"
      by blast
    define evs where "evs = start_events b n A B N nprime @ status_reads dev b d3 (Suc k)"
    have r: "read_addrs evs = replicate (Suc k) (REG_STATUS b)"
      by (simp only: evs_def read_addrs_append read_addrs_start_events read_addrs_status_reads
          append_Nil)
    have l: "log' = log @ evs @ map (\<lambda>i. In32 (REG_RES b i) (R' ! i)) [0..<n]"
      by (simp add: k(3) evs_def)
    from k(1) r l have "\<exists>evs k. k \<le> HW_DONE_TIMEOUT
                   \<and> read_addrs evs = replicate (Suc k) (REG_STATUS b)
                   \<and> log' = log @ evs @ map (\<lambda>i. In32 (REG_RES b i) (R' ! i)) [0..<n]"
      by blast
    moreover have "\<not> (\<forall>k\<le>HW_DONE_TIMEOUT. status_seq dev b d3 k AND 1 = 0)"
      using k(1,2) by blast
    ultimately show ?thesis using a unfolding d3_def by blast
  qed
qed

theorem montgomery_mul_hw_fails_iff_timeout_witness:
  "(\<exists>R' s'. montgomery_mul_hw dead_dev 0 1 [1] [2] [3233] 7 [9] ((), []) = (False, R', s')
       \<and> R' = [9]
       \<and> (\<exists>evs. snd s' = [] @ evs
             \<and> read_addrs evs = replicate (HW_DONE_TIMEOUT + 1) (REG_STATUS 0)))
   \<and> (\<exists>R' s'. montgomery_mul_hw ready_dev 0 1 [1] [2] [3233] 7 [9] ((), []) = (True, R', s')
         \<and> length R' = length [9 :: u32]
         \<and> (\<exists>evs k. k \<le> HW_DONE_TIMEOUT \<and> read_addrs evs = replicate (Suc k) (REG_STATUS 0)
               \<and> snd s' = [] @ evs @ map (\<lambda>i. In32 (REG_RES 0 i) (R' ! i)) [0..<1]))"
proof -
  obtain ok R' d' log' where
    e: "montgomery_mul_hw dead_dev 0 1 [1] [2] [3233] 7 [9] ((), []) = (ok, R', (d', log'))"
    by (metis prod.exhaust)
  have "\<not> ok"
    using montgomery_mul_hw_fails_iff_timeout [OF e] by (simp add: status_seq_dead)
  with montgomery_mul_hw_fails_iff_timeout [OF e] e have 1:
    "\<exists>R' s'. montgomery_mul_hw dead_dev 0 1 [1] [2] [3233] 7 [9] ((), []) = (False, R', s')
       \<and> R' = [9]
       \<and> (\<exists>evs. snd s' = [] @ evs
             \<and> read_addrs evs = replicate (HW_DONE_TIMEOUT + 1) (REG_STATUS 0))"
    by auto
  obtain ok2 R2 d2 log2 where
    e2: "montgomery_mul_hw ready_dev 0 1 [1] [2] [3233] 7 [9] ((), []) = (ok2, R2, (d2, log2))"
    by (metis prod.exhaust)
  have "ok2"
    using montgomery_mul_hw_fails_iff_timeout [OF e2] by (simp add: status_seq_ready) (use le0 in blast)
  with montgomery_mul_hw_fails_iff_timeout [OF e2] e2 have 2:
    "\<exists>R' s'. montgomery_mul_hw ready_dev 0 1 [1] [2] [3233] 7 [9] ((), []) = (True, R', s')
         \<and> length R' = length [9 :: u32]
         \<and> (\<exists>evs k. k \<le> HW_DONE_TIMEOUT \<and> read_addrs evs = replicate (Suc k) (REG_STATUS 0)
               \<and> snd s' = [] @ evs @ map (\<lambda>i. In32 (REG_RES 0 i) (R' ! i)) [0..<1])"
    by auto
  from 1 2 show ?thesis by blast
qed

text \<open>
  C8. For any device, read off the trace of register accesses that one call of
  \<open>modexp_hw_scalar\<close> adds: an invocation begins with the write of 1 to the control
  register (\<open>n_start\<close> counts them) and succeeds when a status read shows bit 0 set
  (\<open>n_done\<close> counts those). If the call succeeds, every invocation it began has
  succeeded. If it fails, exactly one invocation has not succeeded, and it is the last
  thing on the trace: after its start command come only the \<open>HW_DONE_TIMEOUT + 1\<close>
  status reads of the timed-out poll. So a failed invocation makes the call fail, and
  no register access follows it.
\<close>

theorem modexp_hw_scalar_aborts_on_failure:
  assumes "modexp_hw_scalar dev b base exp exp_bits N nprime R2 result n (d, log)
             = (ok, result', (d', log'))"
    and "n \<le> length result" "n \<le> MAX_WORDS"
  shows "\<exists>evs. log' = log @ evs
           \<and> (ok \<longrightarrow> n_done b evs = n_start b evs)
           \<and> (\<not> ok \<longrightarrow> n_start b evs = Suc (n_done b evs)
                 \<and> (\<exists>pre vs. evs = pre @ Out32 (REG_CONTROL b) 1 # map (In32 (REG_STATUS b)) vs
                       \<and> length vs = HW_DONE_TIMEOUT + 1 \<and> (\<forall>v\<in>set vs. v AND 1 = 0)))"
  using modexp_hw_scalar_trace [OF assms] unfolding trace_inv_def .

theorem modexp_hw_scalar_aborts_on_failure_witness:
  "\<exists>result' s'. modexp_hw_scalar dead_dev 0 [42] 17 5 [3233] 7 [2029] [0] 1 ((), [])
                  = (False, result', s')
     \<and> (\<exists>evs. snd s' = [] @ evs \<and> n_start 0 evs = Suc (n_done 0 evs)
           \<and> (\<exists>pre vs. evs = pre @ Out32 (REG_CONTROL 0) 1 # map (In32 (REG_STATUS 0)) vs
                 \<and> length vs = HW_DONE_TIMEOUT + 1 \<and> (\<forall>v\<in>set vs. v AND 1 = 0)))"
proof -
  obtain ok R' d' log' where
    e: "modexp_hw_scalar dead_dev 0 [42] 17 5 [3233] 7 [2029] [0] 1 ((), []) = (ok, R', (d', log'))"
    by (metis prod.exhaust)
  have "\<not> ok"
    using modexp_hw_scalar_dead [of 0 "[42]" 17 5 "[3233]" 7 "[2029]" "[0]" 1 "((), [])"] e
    by simp
  with modexp_hw_scalar_aborts_on_failure [OF e] e show ?thesis
    by (simp add: MAX_WORDS_def)
qed

text \<open>
  C10. When \<open>modexp_hw_scalar\<close> fails, the caller's array \<open>result\<close> is what it was before
  the call: only the last invocation has it as its output array, and an invocation
  that times out returns before it writes any word.
\<close>

theorem modexp_hw_scalar_failure_keeps_result:
  assumes "modexp_hw_scalar dev b base exp exp_bits N nprime R2 result n s = (ok, result', s')"
    and "\<not> ok"
  shows "result' = result"
proof -
  from assms have "modexp_hw_scalar dev b base exp exp_bits N nprime R2 result n s
                     = (False, result', s')"
    by simp
  then show ?thesis
    by (rule modexp_hw_scalar_fail_unchanged)
qed

theorem modexp_hw_scalar_failure_keeps_result_witness:
  "\<exists>result' s'. modexp_hw_scalar dead_dev 0 [42] 17 5 [3233] 7 [2029] [5, 6] 1 ((), [])
                  = (False, result', s')
     \<and> result' = [5, 6]"
proof -
  obtain ok R' s' where
    e: "modexp_hw_scalar dead_dev 0 [42] 17 5 [3233] 7 [2029] [5, 6] 1 ((), []) = (ok, R', s')"
    by (metis prod.exhaust)
  have n: "\<not> ok"
    using modexp_hw_scalar_dead [of 0 "[42]" 17 5 "[3233]" 7 "[2029]" "[5, 6]" 1 "((), [])"] e
    by simp
  from e n have "modexp_hw_scalar dead_dev 0 [42] 17 5 [3233] 7 [2029] [5, 6] 1 ((), [])
                   = (False, R', s')"
    by simp
  moreover have "R' = [5, 6]"
    using modexp_hw_scalar_failure_keeps_result [OF e n] .
  ultimately show ?thesis
    by blast
qed

section \<open>The Montgomery product\<close>

lemma halve_mod_less: "x < n \<Longrightarrow> halve_mod n x < n"
  by (auto simp: halve_mod_def)

lemma halve_mod_double: "odd n \<Longrightarrow> (2 * halve_mod n x) mod n = x mod n"
  by (auto simp: halve_mod_def elim!: oddE)

lemma halve_pow:
  assumes "odd n" "x < n"
  shows "(halve_mod n ^^ k) x < n \<and> ((halve_mod n ^^ k) x * 2 ^ k) mod n = x"
proof (induction k)
  case 0
  with assms show ?case by simp
next
  case (Suc k)
  define y where "y = (halve_mod n ^^ k) x"
  from Suc have y: "y < n" "(y * 2 ^ k) mod n = x" by (simp_all add: y_def)
  have "halve_mod n y * 2 ^ Suc k = (2 * halve_mod n y) * 2 ^ k"
    by simp
  then have "(halve_mod n y * 2 ^ Suc k) mod n = ((2 * halve_mod n y) mod n * 2 ^ k) mod n"
    by (simp only: mod_mult_left_eq)
  also have "\<dots> = (y * 2 ^ k) mod n"
    using assms(1) by (simp add: halve_mod_double mod_mult_left_eq)
  finally show ?case
    using y by (simp add: y_def [symmetric] halve_mod_less)
qed

lemma mont_product_spec:
  assumes "odd n"
  shows "mont_product w n x y < n"
    and "(mont_product w n x y * 2 ^ (32 * w)) mod n = (x * y) mod n"
proof -
  have "0 < n" using assms by (cases n) simp_all
  then have "(x * y) mod n < n" by simp
  from halve_pow [OF assms this, of "32 * w"]
  show "mont_product w n x y < n"
    "(mont_product w n x y * 2 ^ (32 * w)) mod n = (x * y) mod n"
    by (simp_all add: mont_product_def)
qed

lemma length_nat_to_words: "length (nat_to_words k v) = k"
  by (induction k arbitrary: v) simp_all

lemma words_val_nat_to_words:
  "v < 2 ^ (32 * k) \<Longrightarrow> words_val (map unat (nat_to_words k v)) = v"
proof (induction k arbitrary: v)
  case 0
  then show ?case by simp
next
  case (Suc k)
  have "v div 2 ^ 32 < 2 ^ (32 * k)"
    using Suc.prems by (simp add: less_mult_imp_div_less power_add)
  from Suc.IH [OF this] show ?case
    by (simp add: unat_of_nat)
qed

lemma bn_value_nat_to_words: "v < 2 ^ (32 * k) \<Longrightarrow> bn_value k (nat_to_words k v) = v"
  by (simp add: bn_value_def length_nat_to_words words_val_nat_to_words)

section \<open>One invocation on the multiplying accelerator\<close>

lemma unat_reg_offset:
  "k < 2 ^ 32 \<Longrightarrow> unat ((b + of_nat k) - b :: u32) = k"
  by (simp add: unat_of_nat)

lemma accel_offsets:
  assumes "i \<le> MAX_WORDS"
  shows "unat (REG_A b i - b) = 4 * i" "unat (REG_B b i - b) = 512 + 4 * i"
    "unat (REG_N b i - b) = 1024 + 4 * i" "unat (REG_RES b i - b) = 1536 + 4 * i"
    "unat (REG_NPRIME b - b) = 2048" "unat (REG_CONTROL b - b) = 2052"
    "unat (REG_STATUS b - b) = 2056"
  unfolding REG_as_offset using assms
  by (intro unat_reg_offset; simp add: MAX_WORDS_def)+

lemma accel_dev_sel [simp]:
  "dev_in (accel_dev w lat b) = accel_in b" "dev_out (accel_dev w lat b) = accel_out w lat b"
  by (simp_all add: accel_dev_def)

lemma take_drop_update:
  "k < length xs \<Longrightarrow> k < length ys \<Longrightarrow>
     (take k xs @ drop k ys)[k := xs ! k] = take (Suc k) xs @ drop (Suc k) ys"
  by (simp add: take_Suc_conv_app_nth list_update_append Cons_nth_drop_Suc [symmetric])

lemma accel_write_operands:
  assumes "accel_wf n st" "n \<le> MAX_WORDS" "n \<le> length A" "n \<le> length B" "n \<le> length N"
    and "k \<le> n"
  shows "fst (fold (write_operand_word (accel_dev n lat b) b A B N) [0..<k] (st, log)) =
           st\<lparr>bank_a := take k A @ drop k (bank_a st),
              bank_b := take k B @ drop k (bank_b st),
              bank_n := take k N @ drop k (bank_n st)\<rparr>"
  using assms(6)
proof (induction k)
  case 0
  then show ?case by simp
next
  case (Suc k)
  obtain s1 l1 where f:
    "fold (write_operand_word (accel_dev n lat b) b A B N) [0..<k] (st, log) = (s1, l1)"
    by (metis prod.exhaust)
  from Suc f have s1: "s1 = st\<lparr>bank_a := take k A @ drop k (bank_a st),
              bank_b := take k B @ drop k (bank_b st),
              bank_n := take k N @ drop k (bank_n st)\<rparr>"
    by simp
  have k: "k \<le> MAX_WORDS" "k < length A" "k < length B" "k < length N"
    "k < length (bank_a st)" "k < length (bank_b st)" "k < length (bank_n st)"
    using Suc.prems assms(1-5) by (simp_all add: accel_wf_def)
  have "fst (write_operand_word (accel_dev n lat b) b A B N k (s1, l1)) =
          st\<lparr>bank_a := take (Suc k) A @ drop (Suc k) (bank_a st),
              bank_b := take (Suc k) B @ drop (Suc k) (bank_b st),
              bank_n := take (Suc k) N @ drop (Suc k) (bank_n st)\<rparr>"
    using k
    by (simp add: write_operand_word_def Xil_Out32_def accel_out_def
        accel_offsets [OF k(1)] s1 take_drop_update Let_def MAX_WORDS_def)
  then show ?case by (simp add: f)
qed

lemma accel_hw_start:
  assumes "accel_wf n st" "n \<le> MAX_WORDS" "n \<le> length A" "n \<le> length B" "n \<le> length N"
  shows "fst (hw_start (accel_dev n lat b) b n A B N nprime (st, log)) =
           st\<lparr>bank_a := take n A, bank_b := take n B, bank_n := take n N,
              reg_nprime := nprime,
              bank_res := nat_to_words n
                 (mont_product n (bn_value n N) (bn_value n A) (bn_value n B)),
              busy := lat\<rparr>"
proof -
  obtain s1 l1 where f:
    "fold (write_operand_word (accel_dev n lat b) b A B N) [0..<n] (st, log) = (s1, l1)"
    by (metis prod.exhaust)
  from accel_write_operands [OF assms order_refl, of lat b log] f assms(1)
  have s1: "s1 = st\<lparr>bank_a := take n A, bank_b := take n B, bank_n := take n N\<rparr>"
    by (simp add: accel_wf_def)
  have z: "(0 :: nat) \<le> MAX_WORDS" by simp
  show ?thesis
    by (simp add: hw_start_def f Xil_Out32_def accel_out_def
        accel_offsets [OF z] s1 bn_value_def)
qed

lemma accel_status_state:
  "status_state (accel_dev n lat b) b st k = st\<lparr>busy := busy st - k\<rparr>"
proof (induction k arbitrary: st)
  case 0
  then show ?case by simp
next
  case (Suc k)
  have z: "(0 :: nat) \<le> MAX_WORDS" by simp
  show ?case
    by (simp add: Suc accel_in_def accel_offsets [OF z])
qed

lemma accel_status_seq:
  "status_seq (accel_dev n lat b) b st k = (if k < busy st then 0 else 1)"
proof -
  have z: "(0 :: nat) \<le> MAX_WORDS" by simp
  show ?thesis
    unfolding status_seq_def accel_status_state
    by (simp add: accel_in_def accel_offsets [OF z])
qed

lemma accel_read_result:
  assumes "busy st = 0" "length (bank_res st) = n" "n \<le> MAX_WORDS" "n \<le> length R" "k \<le> n"
  shows "\<exists>log'. fold (read_result_word (accel_dev n lat b) b) [0..<k] (R, (st, log)) =
           (take k (bank_res st) @ drop k R, (st, log'))"
  using assms(5)
proof (induction k)
  case 0
  then show ?case by simp
next
  case (Suc k)
  then obtain l1 where f: "fold (read_result_word (accel_dev n lat b) b) [0..<k] (R, (st, log)) =
           (take k (bank_res st) @ drop k R, (st, l1))"
    by auto
  have k: "k \<le> MAX_WORDS" "k < length (bank_res st)" "k < length R"
    using Suc.prems assms by simp_all
  have "\<exists>log'. read_result_word (accel_dev n lat b) b k (take k (bank_res st) @ drop k R, (st, l1)) =
          (take (Suc k) (bank_res st) @ drop (Suc k) R, (st, log'))"
    using k assms(1)
    by (simp add: read_result_word_def Xil_In32_def accel_in_def
        accel_offsets [OF k(1)] take_drop_update Let_def MAX_WORDS_def)
  then show ?case by (simp add: f)
qed

lemma montgomery_mul_hw_accel:
  assumes wf: "accel_wf n st" and n: "n \<le> MAX_WORDS"
    and len: "n \<le> length A" "n \<le> length B" "n \<le> length N" "n \<le> length R"
    and lat: "lat \<le> HW_DONE_TIMEOUT" and odd: "odd (bn_value n N)"
  shows "\<exists>R' st' log'.
           montgomery_mul_hw (accel_dev n lat b) b n A B N nprime R (st, log) = (True, R', (st', log'))
           \<and> accel_wf n st' \<and> length R' = length R \<and> drop n R' = drop n R
           \<and> bn_value n R' = mont_product n (bn_value n N) (bn_value n A) (bn_value n B)"
proof -
  define res where "res = nat_to_words n
                 (mont_product n (bn_value n N) (bn_value n A) (bn_value n B))"
  define st3 where "st3 = st\<lparr>bank_a := take n A, bank_b := take n B, bank_n := take n N,
              reg_nprime := nprime, bank_res := res, busy := lat\<rparr>"
  obtain d3 log3 where s3: "hw_start (accel_dev n lat b) b n A B N nprime (st, log) = (d3, log3)"
    by (metis prod.exhaust)
  have d3: "d3 = st3"
    using accel_hw_start [OF wf n len(1-3), of lat b nprime log] s3
    by (simp add: st3_def res_def)
  have p: "poll_done (accel_dev n lat b) b 0 (st3, log3) =
           (True, (status_state (accel_dev n lat b) b st3 (Suc lat),
                   log3 @ status_reads (accel_dev n lat b) b st3 (Suc lat)))"
    using lat by (intro poll_done_success) (simp_all add: accel_status_seq st3_def)
  define st4 where "st4 = st3\<lparr>busy := 0\<rparr>"
  have st4: "status_state (accel_dev n lat b) b st3 (Suc lat) = st4"
    unfolding accel_status_state by (simp add: st4_def st3_def)
  define log4 where "log4 = log3 @ status_reads (accel_dev n lat b) b st3 (Suc lat)"
  have p': "poll_done (accel_dev n lat b) b 0 (st3, log3) = (True, (st4, log4))"
    unfolding p st4 log4_def ..
  have lres: "length res = n" by (simp add: res_def length_nat_to_words)
  have "busy st4 = 0" "length (bank_res st4) = n"
    by (simp_all add: st4_def st3_def lres)
  from accel_read_result [OF this n len(4) order_refl, of lat b]
  obtain log5 where r: "fold (read_result_word (accel_dev n lat b) b) [0..<n]
        (R, (st4, log4)) = (take n (bank_res st4) @ drop n R, (st4, log5))"
    by blast
  have br: "take n (bank_res st4) = res" by (simp add: st4_def st3_def lres)
  have run: "montgomery_mul_hw (accel_dev n lat b) b n A B N nprime R (st, log) =
           (True, res @ drop n R, (st4, log5))"
    by (simp add: montgomery_mul_hw_def s3 d3 p' r br)
  have wf4: "accel_wf n st4"
    using len by (simp add: accel_wf_def st4_def st3_def)
  have "mont_product n (bn_value n N) (bn_value n A) (bn_value n B) < bn_value n N"
    using odd by (rule mont_product_spec)
  also have "\<dots> < 2 ^ (32 * n)" by (rule bn_value_bound)
  finally have "bn_value n res = mont_product n (bn_value n N) (bn_value n A) (bn_value n B)"
    unfolding res_def by (rule bn_value_nat_to_words)
  then have v: "bn_value n (res @ drop n R)
                  = mont_product n (bn_value n N) (bn_value n A) (bn_value n B)"
    by (simp add: bn_value_def lres)
  show ?thesis
    using run wf4 v len(4) by (simp add: lres)
qed

section \<open>The hardware engine on the multiplying accelerator\<close>

lemma mont_product_unique:
  assumes "odd m" "(x * y) mod m = (z * 2 ^ (32 * n)) mod m"
  shows "mont_product n m x y = z mod m"
proof -
  have "coprime (2 :: nat) m" using assms(1) by (simp add: coprime_left_2_iff_odd)
  then have c: "coprime (2 ^ (32 * n)) m"
    unfolding coprime_power_left_iff by blast
  have "(mont_product n m x y * 2 ^ (32 * n)) mod m = (z * 2 ^ (32 * n)) mod m"
    using mont_product_spec(2) [OF assms(1)] assms(2) by simp
  from mod_mult_cancel_coprime [OF c this] mont_product_spec(1) [OF assms(1), of n x y]
  show ?thesis by simp
qed

lemma mont_product_rep:
  assumes "odd m"
  shows "mont_product n m ((u * 2 ^ (32 * n)) mod m) ((v * 2 ^ (32 * n)) mod m)
           = (u * v * 2 ^ (32 * n)) mod m"
proof -
  have "(((u * 2 ^ (32 * n)) mod m) * ((v * 2 ^ (32 * n)) mod m)) mod m
          = ((u * v * 2 ^ (32 * n)) * 2 ^ (32 * n)) mod m"
    by (simp add: mod_mult_eq algebra_simps)
  from mont_product_unique [OF assms this] show ?thesis by simp
qed

lemma modexp_hw_loop_accel:
  fixes b m ev :: nat
  assumes n: "n \<le> MAX_WORDS" "n \<le> length N"
    and lat: "lat \<le> HW_DONE_TIMEOUT"
    and m: "odd m" "bn_value n N = m"
    and ev: "ev = unat exp"
    and st: "accel_wf n st" "n \<le> length x" "n \<le> length a"
      "bn_value n x = (b ^ (ev mod 2 ^ t) * 2 ^ (32 * n)) mod m"
      "bn_value n a = (b ^ (2 ^ t) * 2 ^ (32 * n)) mod m"
  shows "\<exists>x' a' st' log'.
           modexp_hw_loop (accel_dev n lat bs) bs exp N nprime n [t..<t + len] x a (st, log)
             = (True, x', a', (st', log'))
           \<and> accel_wf n st' \<and> length x' = length x
           \<and> bn_value n x' = (b ^ (ev mod 2 ^ (t + len)) * 2 ^ (32 * n)) mod m"
  using st
proof (induction len arbitrary: t x a st log)
  case 0
  then show ?case by simp
next
  case (Suc len)
  define i where "i = ev mod 2 ^ t"
  define j :: nat where "j = 2 ^ t"
  have xv: "bn_value n x = (b ^ i * 2 ^ (32 * n)) mod m"
    and av: "bn_value n a = (b ^ j * 2 ^ (32 * n)) mod m"
    using Suc.prems by (simp_all add: i_def j_def)
  have oddN: "odd (bn_value n N)" using m by simp
  \<comment> \<open>the conditional multiplication\<close>
  have "\<exists>x1 st1 log1.
          (if drop_bit t exp AND 1 \<noteq> 0
           then montgomery_mul_hw (accel_dev n lat bs) bs n x a N nprime x (st, log)
           else (True, x, (st, log))) = (True, x1, (st1, log1))
          \<and> accel_wf n st1 \<and> length x1 = length x
          \<and> bn_value n x1 = (b ^ (ev mod 2 ^ Suc t) * 2 ^ (32 * n)) mod m"
  proof (cases "drop_bit t exp AND 1 \<noteq> 0")
    case True
    then have bt: "bit ev t" by (simp add: exp_bit_test ev)
    from montgomery_mul_hw_accel [OF Suc.prems(1) n(1) Suc.prems(2,3) n(2) Suc.prems(2) lat oddN,
        of bs nprime log]
    obtain R' st' log' where r:
      "montgomery_mul_hw (accel_dev n lat bs) bs n x a N nprime x (st, log) = (True, R', (st', log'))"
      "accel_wf n st'" "length R' = length x"
      "bn_value n R' = mont_product n (bn_value n N) (bn_value n x) (bn_value n a)"
      by blast
    have "bn_value n R' = (b ^ i * b ^ j * 2 ^ (32 * n)) mod m"
      using m by (simp add: r(4) xv av mont_product_rep)
    also have "b ^ i * b ^ j = b ^ (i + j)" by (simp add: power_add)
    also have "i + j = ev mod 2 ^ Suc t"
      using bt by (simp add: mod_pow2_Suc i_def j_def del: power_Suc)
    finally show ?thesis using True r by simp
  next
    case False
    then have "\<not> bit ev t" by (simp add: exp_bit_test ev)
    then have "ev mod 2 ^ Suc t = i" by (simp add: mod_pow2_Suc i_def del: power_Suc)
    with False xv Suc.prems(1) show ?thesis by simp
  qed
  then obtain x1 st1 log1 where x1:
    "(if drop_bit t exp AND 1 \<noteq> 0
           then montgomery_mul_hw (accel_dev n lat bs) bs n x a N nprime x (st, log)
           else (True, x, (st, log))) = (True, x1, (st1, log1))"
    "accel_wf n st1" "length x1 = length x"
    "bn_value n x1 = (b ^ (ev mod 2 ^ Suc t) * 2 ^ (32 * n)) mod m"
    by blast
  \<comment> \<open>the squaring\<close>
  from montgomery_mul_hw_accel [OF x1(2) n(1) Suc.prems(3,3) n(2) Suc.prems(3) lat oddN,
      of bs nprime log1]
  obtain a1 st2 log2 where a1:
    "montgomery_mul_hw (accel_dev n lat bs) bs n a a N nprime a (st1, log1) = (True, a1, (st2, log2))"
    "accel_wf n st2" "length a1 = length a"
    "bn_value n a1 = mont_product n (bn_value n N) (bn_value n a) (bn_value n a)"
    by blast
  have "bn_value n a1 = (b ^ j * b ^ j * 2 ^ (32 * n)) mod m"
    using m by (simp add: a1(4) av mont_product_rep)
  also have "b ^ j * b ^ j = b ^ (j + j)" by (simp add: power_add)
  also have "j + j = 2 ^ Suc t" by (simp add: j_def)
  finally have a1v: "bn_value n a1 = (b ^ (2 ^ Suc t) * 2 ^ (32 * n)) mod m" .
  have "\<exists>x' a' st' log'.
           modexp_hw_loop (accel_dev n lat bs) bs exp N nprime n [Suc t..<Suc t + len] x1 a1 (st2, log2)
             = (True, x', a', (st', log'))
           \<and> accel_wf n st' \<and> length x' = length x1
           \<and> bn_value n x' = (b ^ (ev mod 2 ^ (Suc t + len)) * 2 ^ (32 * n)) mod m"
    using Suc.prems(2,3) x1 a1 a1v by (intro Suc.IH) simp_all
  moreover have "[t..<t + Suc len] = t # [Suc t..<Suc t + len]"
    by (simp add: upt_conv_Cons)
  ultimately show ?case
    using x1 a1 by (simp del: upt_Suc)
qed

lemma modexp_hw_scalar_accel:
  fixes b m :: nat
  assumes n: "n \<le> MAX_WORDS" "n \<le> length base" "n \<le> length N" "n \<le> length R2"
      "n \<le> length result"
    and lat: "lat \<le> HW_DONE_TIMEOUT"
    and m: "odd m" "bn_value n N = m"
    and r2: "bn_value n R2 mod m = (2 ^ (32 * n) * 2 ^ (32 * n)) mod m"
    and b: "bn_value n base = b"
    and wf: "accel_wf n st"
  shows "\<exists>r st' log'.
           modexp_hw_scalar (accel_dev n lat bs) bs base exp exp_bits N nprime R2 result n (st, log)
             = (True, r, (st', log'))
           \<and> accel_wf n st'
           \<and> bn_value n r = b ^ (unat exp mod 2 ^ nat exp_bits) mod m
           \<and> length r = length result \<and> drop n r = drop n result"
proof -
  have n1: "1 \<le> n"
  proof (rule ccontr)
    assume "\<not> 1 \<le> n"
    then have "n = 0" by linarith
    then have "bn_value n N = 0" by (simp add: bn_value_0)
    with m show False by simp
  qed
  have oddN: "odd (bn_value n N)" using m by simp
  define one where "one = bigint_set_u32 uninit_words 1 n"
  have lu: "n \<le> length uninit_words" using n(1) by (simp add: length_uninit_words)
  have lone: "n \<le> length one" using lu by (simp add: one_def length_bigint_set_u32)
  have onev: "bn_value n one = 1"
    using n1 lu by (simp add: one_def bigint_set_u32_value)
  \<comment> \<open>\<open>x = mul(ONE, R2)\<close>\<close>
  from montgomery_mul_hw_accel [OF wf n(1) lone n(4,3) lu lat oddN, of bs nprime log]
  obtain x st1 log1 where x:
    "montgomery_mul_hw (accel_dev n lat bs) bs n one R2 N nprime uninit_words (st, log)
       = (True, x, (st1, log1))"
    "accel_wf n st1" "length x = length uninit_words"
    "bn_value n x = mont_product n (bn_value n N) (bn_value n one) (bn_value n R2)"
    by blast
  have "(1 * bn_value n R2) mod m = (2 ^ (32 * n) * 2 ^ (32 * n)) mod m"
    using r2 by simp
  from mont_product_unique [OF m(1) this]
  have xv: "bn_value n x = (b ^ (unat exp mod 2 ^ 0) * 2 ^ (32 * n)) mod m"
    by (simp add: x(4) onev m(2))
  \<comment> \<open>\<open>a = mul(base, R2)\<close>\<close>
  from montgomery_mul_hw_accel [OF x(2) n(1,2,4,3) lu lat oddN, of bs nprime log1]
  obtain a st2 log2 where a:
    "montgomery_mul_hw (accel_dev n lat bs) bs n base R2 N nprime uninit_words (st1, log1)
       = (True, a, (st2, log2))"
    "accel_wf n st2" "length a = length uninit_words"
    "bn_value n a = mont_product n (bn_value n N) (bn_value n base) (bn_value n R2)"
    by blast
  have "(b * bn_value n R2) mod m = (b * (bn_value n R2 mod m)) mod m"
    by (simp add: mod_mult_right_eq)
  also have "\<dots> = ((b * 2 ^ (32 * n)) * 2 ^ (32 * n)) mod m"
    by (simp add: r2 mod_mult_right_eq mult.assoc)
  finally have "(b * bn_value n R2) mod m = ((b * 2 ^ (32 * n)) * 2 ^ (32 * n)) mod m" .
  from mont_product_unique [OF m(1) this]
  have av: "bn_value n a = (b ^ (2 ^ 0) * 2 ^ (32 * n)) mod m"
    by (simp add: a(4) b m(2))
  \<comment> \<open>the loop\<close>
  have lx: "n \<le> length x" "n \<le> length a" using lu x(3) a(3) by simp_all
  from modexp_hw_loop_accel [OF n(1,3) lat m refl a(2) lx xv av, of bs nprime "nat exp_bits" log2]
  obtain x' a' st3 log3 where l:
    "modexp_hw_loop (accel_dev n lat bs) bs exp N nprime n [0..<nat exp_bits] x a (st2, log2)
       = (True, x', a', (st3, log3))"
    "accel_wf n st3" "length x' = length x"
    "bn_value n x' = (b ^ (unat exp mod 2 ^ nat exp_bits) * 2 ^ (32 * n)) mod m"
    by auto
  \<comment> \<open>\<open>result = mul(x, ONE)\<close>\<close>
  have lx': "n \<le> length x'" using l(3) lx by simp
  from montgomery_mul_hw_accel [OF l(2) n(1) lx' lone n(3,5) lat oddN, of bs nprime log3]
  obtain r st4 log4 where r:
    "montgomery_mul_hw (accel_dev n lat bs) bs n x' one N nprime result (st3, log3)
       = (True, r, (st4, log4))"
    "accel_wf n st4" "length r = length result" "drop n r = drop n result"
    "bn_value n r = mont_product n (bn_value n N) (bn_value n x') (bn_value n one)"
    by blast
  have "(bn_value n x' * 1) mod m = (b ^ (unat exp mod 2 ^ nat exp_bits) * 2 ^ (32 * n)) mod m"
    by (simp add: l(4))
  from mont_product_unique [OF m(1) this]
  have rv: "bn_value n r = b ^ (unat exp mod 2 ^ nat exp_bits) mod m"
    by (simp add: r(5) onev m(2))
  show ?thesis
    using x(1) a(1) l(1) r(1,2,3,4) rv
    by (simp add: modexp_hw_scalar_def one_def [symmetric] Let_def)
qed

section \<open>The round trip with the toy key\<close>

lemma words_val_inj:
  assumes "length xs = length ys" "\<forall>x\<in>set xs. x < 2 ^ 32" "\<forall>y\<in>set ys. y < 2 ^ 32"
    and "words_val xs = words_val ys"
  shows "xs = ys"
  using assms
proof (induction xs ys rule: list_induct2)
  case Nil
  then show ?case by simp
next
  case (Cons x xs y ys)
  from Cons.prems have lt: "x < 2 ^ 32" "y < 2 ^ 32"
    and eq: "x + 2 ^ 32 * words_val xs = y + 2 ^ 32 * words_val ys"
    by simp_all
  from eq have "(x + 2 ^ 32 * words_val xs) mod 2 ^ 32 = (y + 2 ^ 32 * words_val ys) mod 2 ^ 32"
    by simp
  with lt have xy: "x = y" by simp
  with eq have "words_val xs = words_val ys" by simp
  with Cons xy show ?case by simp
qed

lemma bn_value_inj:
  assumes "n \<le> length A" "n \<le> length B" "bn_value n A = bn_value n B"
  shows "take n A = take n B"
proof -
  have "map unat (take n A) = map unat (take n B)"
    using assms unat_u32_less
    by (intro words_val_inj) (auto simp: bn_value_def)
  moreover have "inj (unat :: u32 \<Rightarrow> nat)"
    by (rule injI) (simp add: word_unat_eq_iff)
  ultimately show ?thesis
    by (simp only: inj_map_eq_map)
qed

lemma bigint_equal_iff:
  assumes "n \<le> length a" "n \<le> length b"
  shows "bigint_equal a b n \<longleftrightarrow> take n a = take n b"
  using assms
  by (auto simp: bigint_equal_def list_all_iff list_eq_iff_nth_eq)

lemma bn_value_Cons_zeros:
  "1 \<le> n \<Longrightarrow> n \<le> Suc k \<Longrightarrow> bn_value n (v # replicate k 0) = unat v"
proof -
  assume n: "1 \<le> n" "n \<le> Suc k"
  then obtain j where j: "n = Suc j" by (cases n) simp_all
  with n have "take n (v # replicate k 0) = v # replicate j 0"
    by (simp add: min_def)
  then show ?thesis
    by (simp add: bn_value_def words_val_replicate_zero)
qed

lemma bn_value_RSA_N: "1 \<le> n \<Longrightarrow> n \<le> MAX_WORDS \<Longrightarrow> bn_value n RSA_N = 3233"
  by (simp add: RSA_N_def bn_value_Cons_zeros MAX_WORDS_def)

lemma length_RSA_N: "length RSA_N = MAX_WORDS"
  by (simp add: RSA_N_def MAX_WORDS_def)

lemma fold_zero_words:
  fixes R :: "u32 list"
  shows "k \<le> length R \<Longrightarrow> fold (\<lambda>i r. r[i := 0]) [0..<k] R = replicate k 0 @ drop k R"
proof (induction k)
  case 0
  then show ?case by simp
next
  case (Suc k)
  then have k: "k < length R" by simp
  have "(replicate k 0 @ drop k R)[k := 0] = replicate (Suc k) 0 @ drop (Suc k) R"
    using k by (simp add: list_update_append replicate_append_same Cons_nth_drop_Suc [symmetric])
  with Suc show ?case by simp
qed

lemma init_mont_params_value:
  assumes "1 \<le> n" "n \<le> length R2_out"
  shows "\<exists>R2 nprime. init_mont_params_for_size n R2_out = Some (R2, nprime)
           \<and> bn_value n R2 = (2 ^ (32 * n) * 2 ^ (32 * n)) mod 3233
           \<and> length R2 = length R2_out"
proof -
  have n0: "RSA_N ! 0 = 3233" by (simp add: RSA_N_def)
  obtain v where v: "modinv32 3233 = Some v"
    using modinv32_correct [of 3233] by auto
  obtain r2 where r2: "compute_R2_modN_32 3233 n = Some r2"
    "unat r2 = (2 ^ (32 * n) * 2 ^ (32 * n)) mod 3233"
    using compute_R2_value [of 3233 n] by auto
  obtain j where j: "n = Suc j" using assms(1) by (cases n) simp_all
  define R2 where "R2 = (fold (\<lambda>i r. r[i := 0]) [0..<n] R2_out)[0 := r2]"
  have "fold (\<lambda>i r. r[i := 0]) [0..<n] R2_out = replicate n 0 @ drop n R2_out"
    using assms(2) by (rule fold_zero_words)
  then have R2: "R2 = r2 # replicate j 0 @ drop n R2_out"
    unfolding R2_def by (simp only: j) simp
  have val: "bn_value n R2 = (2 ^ (32 * n) * 2 ^ (32 * n)) mod 3233"
    unfolding R2 r2(2) [symmetric] by (simp add: bn_value_def j words_val_replicate_zero)
  have len: "length R2 = length R2_out"
    unfolding R2 using assms(2) by (simp add: j)
  have "init_mont_params_for_size n R2_out = Some (R2, 0 - v)"
    by (simp add: init_mont_params_for_size_def n0 v r2(1) R2_def)
  with val len show ?thesis by blast
qed

lemma toy_sw_step:
  assumes n: "1 \<le> n" "n \<le> MAX_WORDS"
    and M: "n \<le> length M" "bn_value n M < 3233" and r: "n \<le> length result"
  shows "\<exists>c. modexp_sw_scalar M exp exp_bits RSA_N result n = Some c
           \<and> bn_value n c = bn_value n M ^ (unat exp mod 2 ^ nat exp_bits) mod 3233
           \<and> length c = length result"
proof -
  have "(2 :: nat) ^ (32 * 1) \<le> 2 ^ (32 * n)"
    using n(1) by (intro power_increasing) simp_all
  then have sq: "(3233 :: nat) * 3233 \<le> 2 ^ (32 * n)" by simp
  have h: "\<forall>k. 3233 dvd bn_value n M ^ k \<longrightarrow> bn_value n M = 0"
    using M(2) power_multiple_3233 by blast
  have lN: "n \<le> length RSA_N" using n(2) by (simp add: length_RSA_N)
  from modexp_sw_scalar_value [OF n(2) M(1) lN r _ sq bn_value_RSA_N [OF n] refl M(2) h,
      of exp exp_bits]
  show ?thesis by auto
qed

lemma toy_hw_step:
  assumes n: "1 \<le> n" "n \<le> MAX_WORDS"
    and M: "n \<le> length M" and r: "n \<le> length result"
    and R2: "n \<le> length R2" "bn_value n R2 = (2 ^ (32 * n) * 2 ^ (32 * n)) mod 3233"
    and dev: "lat \<le> HW_DONE_TIMEOUT" "accel_wf n st"
  shows "\<exists>c st' log'.
           modexp_hw_scalar (accel_dev n lat b) b M exp exp_bits RSA_N nprime R2 result n (st, log)
             = (True, c, (st', log'))
           \<and> accel_wf n st'
           \<and> bn_value n c = bn_value n M ^ (unat exp mod 2 ^ nat exp_bits) mod 3233
           \<and> length c = length result"
proof -
  have lN: "n \<le> length RSA_N" using n(2) by (simp add: length_RSA_N)
  have r2: "bn_value n R2 mod 3233 = (2 ^ (32 * n) * 2 ^ (32 * n)) mod 3233"
    by (simp add: R2(2))
  from modexp_hw_scalar_accel [OF n(2) M lN R2(1) r dev(1) _ bn_value_RSA_N [OF n] r2 refl dev(2),
      of b exp exp_bits nprime log]
  show ?thesis by auto
qed

lemma toy_exponents:
  "unat RSA_E mod 2 ^ nat RSA_E_BITS = 17" "unat RSA_D mod 2 ^ nat RSA_D_BITS = 2753"
  by (simp_all add: RSA_E_def RSA_E_BITS_def RSA_D_def RSA_D_BITS_def)

text \<open>
  C5. With the toy key \<open>N = 3233\<close>, \<open>e = 17\<close> over 5 bits and \<open>d = 2753\<close> over 12 bits, for
  every width from 1 to \<open>MAX_WORDS\<close> and every message of value below 3233:
  \<open>modexp_sw_scalar\<close> with \<open>e\<close> and then with \<open>d\<close> on its result return, and the low \<open>n\<close>
  words of the second result are those of the message; and so do the two calls of
  \<open>modexp_hw_scalar\<close>, both successful, with the parameters that
  \<open>init_mont_params_for_size\<close> derives and an accelerator that multiplies correctly and
  answers within the poll limit.
\<close>

theorem rsa_toy_key_roundtrip:
  assumes n: "1 \<le> n" "n \<le> MAX_WORDS"
    and M: "n \<le> length M" "bn_value n M < 3233"
    and bufs: "n \<le> length c0" "n \<le> length m0" "n \<le> length R2_out"
    and ctx: "init_mont_params_for_size n R2_out = Some (R2, nprime)"
    and dev: "lat \<le> HW_DONE_TIMEOUT" "accel_wf n st"
  shows "(\<exists>c m. modexp_sw_scalar M RSA_E RSA_E_BITS RSA_N c0 n = Some c
            \<and> modexp_sw_scalar c RSA_D RSA_D_BITS RSA_N m0 n = Some m
            \<and> bigint_equal m M n)
       \<and> (\<exists>c s1 m s2.
             modexp_hw_scalar (accel_dev n lat b) b M RSA_E RSA_E_BITS RSA_N nprime R2 c0 n (st, log)
               = (True, c, s1)
             \<and> modexp_hw_scalar (accel_dev n lat b) b c RSA_D RSA_D_BITS RSA_N nprime R2 m0 n s1
                 = (True, m, s2)
             \<and> bigint_equal m M n)"
proof
  from toy_sw_step [OF n M bufs(1), of RSA_E RSA_E_BITS]
  obtain c where c: "modexp_sw_scalar M RSA_E RSA_E_BITS RSA_N c0 n = Some c"
    "bn_value n c = bn_value n M ^ 17 mod 3233" "length c = length c0"
    by (auto simp: toy_exponents)
  have lc: "n \<le> length c" "bn_value n c < 3233"
    using c bufs(1) by simp_all
  from toy_sw_step [OF n lc bufs(2), of RSA_D RSA_D_BITS]
  obtain m where m: "modexp_sw_scalar c RSA_D RSA_D_BITS RSA_N m0 n = Some m"
    "bn_value n m = bn_value n c ^ 2753 mod 3233" "length m = length m0"
    by (auto simp: toy_exponents)
  have v: "bn_value n m = bn_value n M"
    unfolding m(2) c(2) using M(2) by (rule rsa_toy_roundtrip)
  have lm: "n \<le> length m" using m(3) bufs(2) by simp
  from bn_value_inj [OF lm M(1) v] have "bigint_equal m M n"
    by (simp only: bigint_equal_iff [OF lm M(1)])
  with c(1) m(1) show "\<exists>c m. modexp_sw_scalar M RSA_E RSA_E_BITS RSA_N c0 n = Some c
            \<and> modexp_sw_scalar c RSA_D RSA_D_BITS RSA_N m0 n = Some m
            \<and> bigint_equal m M n"
    by blast
next
  from init_mont_params_value [OF n(1) bufs(3)] ctx
  have R2: "n \<le> length R2" "bn_value n R2 = (2 ^ (32 * n) * 2 ^ (32 * n)) mod 3233"
    using bufs(3) by auto
  from toy_hw_step [OF n M(1) bufs(1) R2 dev, of b RSA_E RSA_E_BITS nprime log]
  obtain c st1 log1 where c:
    "modexp_hw_scalar (accel_dev n lat b) b M RSA_E RSA_E_BITS RSA_N nprime R2 c0 n (st, log)
       = (True, c, (st1, log1))"
    "accel_wf n st1" "bn_value n c = bn_value n M ^ 17 mod 3233" "length c = length c0"
    by (auto simp: toy_exponents)
  have lc: "n \<le> length c" using c(4) bufs(1) by simp
  from toy_hw_step [OF n lc bufs(2) R2 dev(1) c(2), of b RSA_D RSA_D_BITS nprime log1]
  obtain m st2 log2 where m:
    "modexp_hw_scalar (accel_dev n lat b) b c RSA_D RSA_D_BITS RSA_N nprime R2 m0 n (st1, log1)
       = (True, m, (st2, log2))"
    "bn_value n m = bn_value n c ^ 2753 mod 3233" "length m = length m0"
    by (auto simp: toy_exponents)
  have v: "bn_value n m = bn_value n M"
    unfolding m(2) c(3) using M(2) by (rule rsa_toy_roundtrip)
  have lm: "n \<le> length m" using m(3) bufs(2) by simp
  from bn_value_inj [OF lm M(1) v] have "bigint_equal m M n"
    by (simp only: bigint_equal_iff [OF lm M(1)])
  with c(1) m(1) show "\<exists>c s1 m s2.
             modexp_hw_scalar (accel_dev n lat b) b M RSA_E RSA_E_BITS RSA_N nprime R2 c0 n (st, log)
               = (True, c, s1)
             \<and> modexp_hw_scalar (accel_dev n lat b) b c RSA_D RSA_D_BITS RSA_N nprime R2 m0 n s1
                 = (True, m, s2)
             \<and> bigint_equal m M n"
    by blast
qed

lemma init_mont_params_one: "init_mont_params_for_size 1 [0] = Some ([2029], 1721706655)"
  by code_simp

theorem rsa_toy_key_roundtrip_witness:
  "(1 :: nat) \<le> 1 \<and> 1 \<le> MAX_WORDS \<and> 1 \<le> length [42 :: u32] \<and> bn_value 1 [42] < 3233
   \<and> init_mont_params_for_size 1 [0] = Some ([2029], 1721706655)
   \<and> (0 :: nat) \<le> HW_DONE_TIMEOUT \<and> accel_wf 1 (accel_init 1)
   \<and> (\<exists>c m. modexp_sw_scalar [42] RSA_E RSA_E_BITS RSA_N [0] 1 = Some c
          \<and> modexp_sw_scalar c RSA_D RSA_D_BITS RSA_N [0] 1 = Some m
          \<and> bigint_equal m [42] 1)
   \<and> (\<exists>c s1 m s2.
         modexp_hw_scalar (accel_dev 1 0 0) 0 [42] RSA_E RSA_E_BITS RSA_N 1721706655 [2029] [0] 1
             (accel_init 1, []) = (True, c, s1)
         \<and> modexp_hw_scalar (accel_dev 1 0 0) 0 c RSA_D RSA_D_BITS RSA_N 1721706655 [2029] [0] 1 s1
             = (True, m, s2)
         \<and> bigint_equal m [42] 1)"
proof -
  have h: "(1 :: nat) \<le> 1" "1 \<le> MAX_WORDS" "1 \<le> length [42 :: u32]" "bn_value 1 [42] < 3233"
    "1 \<le> length [0 :: u32]" "(0 :: nat) \<le> HW_DONE_TIMEOUT" "accel_wf 1 (accel_init 1)"
    by (simp_all add: MAX_WORDS_def bn_value_def accel_wf_def accel_init_def)
  from rsa_toy_key_roundtrip [OF h(1,2,3,4) h(5,5,5) init_mont_params_one h(6,7), of 0 "[]"]
    h init_mont_params_one
  show ?thesis by simp
qed

section \<open>Hardware against software\<close>

lemma mont_product_zero: "(x * y) mod n = 0 \<Longrightarrow> mont_product w n x y = 0"
proof -
  have "(halve_mod n ^^ k) 0 = 0" for k
    by (induction k) (simp_all add: halve_mod_def)
  then show "(x * y) mod n = 0 \<Longrightarrow> mont_product w n x y = 0"
    by (simp add: mont_product_def)
qed

lemma modexp_hw_scalar_accel_no_bits:
  assumes n: "1 \<le> n" "n \<le> MAX_WORDS" "n \<le> length base" "n \<le> length N" "n \<le> length R2"
      "n \<le> length result"
    and lat: "lat \<le> HW_DONE_TIMEOUT"
    and m: "odd (bn_value n N)"
    and wf: "accel_wf n st"
    and bits: "exp_bits \<le> 0"
  shows "\<exists>r st' log'.
           modexp_hw_scalar (accel_dev n lat bs) bs base exp exp_bits N nprime R2 result n (st, log)
             = (True, r, (st', log'))
           \<and> bn_value n r = mont_product n (bn_value n N)
                 (mont_product n (bn_value n N) 1 (bn_value n R2)) 1"
proof -
  define one where "one = bigint_set_u32 uninit_words 1 n"
  have lu: "n \<le> length uninit_words" using n(2) by (simp add: length_uninit_words)
  have lone: "n \<le> length one" using lu by (simp add: one_def length_bigint_set_u32)
  have onev: "bn_value n one = 1"
    using n(1) lu by (simp add: one_def bigint_set_u32_value)
  from montgomery_mul_hw_accel [OF wf n(2) lone n(5,4) lu lat m, of bs nprime log]
  obtain x st1 log1 where x:
    "montgomery_mul_hw (accel_dev n lat bs) bs n one R2 N nprime uninit_words (st, log)
       = (True, x, (st1, log1))"
    "accel_wf n st1" "length x = length uninit_words"
    "bn_value n x = mont_product n (bn_value n N) (bn_value n one) (bn_value n R2)"
    by blast
  from montgomery_mul_hw_accel [OF x(2) n(2,3,5,4) lu lat m, of bs nprime log1]
  obtain a st2 log2 where a:
    "montgomery_mul_hw (accel_dev n lat bs) bs n base R2 N nprime uninit_words (st1, log1)
       = (True, a, (st2, log2))"
    "accel_wf n st2"
    by blast
  have lx: "n \<le> length x" using lu x(3) by simp
  from montgomery_mul_hw_accel [OF a(2) n(2) lx lone n(4,6) lat m, of bs nprime log2]
  obtain r st3 log3 where r:
    "montgomery_mul_hw (accel_dev n lat bs) bs n x one N nprime result (st2, log2)
       = (True, r, (st3, log3))"
    "bn_value n r = mont_product n (bn_value n N) (bn_value n x) (bn_value n one)"
    by blast
  have "nat exp_bits = 0" using bits by simp
  then show ?thesis
    using x(1) a(1) r by (simp add: modexp_hw_scalar_def one_def [symmetric] Let_def x(4) onev)
qed

text \<open>
  C1 as it is stated, for every modulus and every \<open>R2\<close>, fails. First input: one word,
  \<open>N = 2^32 - 1\<close>, \<open>base = 2^16\<close>, exponent 2 over 2 bits and \<open>R2 = 1 = R^2 mod N\<close>; the
  hardware path returns \<open>2^32 mod N = 1\<close>, the software path 0, since its multiply keeps
  only the low word of \<open>2^32\<close>. Second input: \<open>N = 7\<close>, \<open>base = 3\<close>, no exponent bits and
  \<open>R2 = 0\<close>; the hardware path returns 0, the software path, which never reads \<open>R2\<close>,
  returns 1.
\<close>

theorem modexp_hw_sw_differ:
  "(\<exists>r_hw s' r_sw.
      modexp_hw_scalar (accel_dev 1 0 0) 0 [0x10000] 2 2 [0xFFFFFFFF] 1 [1] [0] 1 (accel_init 1, [])
        = (True, r_hw, s')
      \<and> modexp_sw_scalar [0x10000] 2 2 [0xFFFFFFFF] [0] 1 = Some r_sw
      \<and> bn_value 1 r_hw = 1 \<and> bn_value 1 r_sw = 0)
   \<and> (\<exists>r_hw s' r_sw.
        modexp_hw_scalar (accel_dev 1 0 0) 0 [3] 0 0 [7] 1 [0] [0] 1 (accel_init 1, [])
          = (True, r_hw, s')
        \<and> modexp_sw_scalar [3] 0 0 [7] [0] 1 = Some r_sw
        \<and> bn_value 1 r_hw = 0 \<and> bn_value 1 r_sw = 1)"
proof
  have wf: "accel_wf 1 (accel_init 1)" by (simp add: accel_wf_def accel_init_def)
  have sw: "modexp_sw_scalar [0x10000] 2 2 [0xFFFFFFFF] [0] 1 = Some [0]"
    by code_simp
  have "\<exists>r st' log'.
           modexp_hw_scalar (accel_dev 1 0 0) 0 [0x10000] 2 2 [0xFFFFFFFF] 1 [1] [0] 1 (accel_init 1, [])
             = (True, r, (st', log'))
           \<and> accel_wf 1 st'
           \<and> bn_value 1 r = 65536 ^ (unat (2 :: u32) mod 2 ^ nat 2) mod 4294967295
           \<and> length r = length [0 :: u32] \<and> drop 1 r = drop 1 [0]"
    using wf by (intro modexp_hw_scalar_accel) (simp_all add: MAX_WORDS_def bn_value_def)
  then obtain r s' where "modexp_hw_scalar (accel_dev 1 0 0) 0 [0x10000] 2 2 [0xFFFFFFFF] 1 [1] [0] 1
      (accel_init 1, []) = (True, r, s')" "bn_value 1 r = 1"
    by auto
  with sw show "\<exists>r_hw s' r_sw.
      modexp_hw_scalar (accel_dev 1 0 0) 0 [0x10000] 2 2 [0xFFFFFFFF] 1 [1] [0] 1 (accel_init 1, [])
        = (True, r_hw, s')
      \<and> modexp_sw_scalar [0x10000] 2 2 [0xFFFFFFFF] [0] 1 = Some r_sw
      \<and> bn_value 1 r_hw = 1 \<and> bn_value 1 r_sw = 0"
    by (simp add: bn_value_def)
next
  have wf: "accel_wf 1 (accel_init 1)" by (simp add: accel_wf_def accel_init_def)
  have sw: "modexp_sw_scalar [3] 0 0 [7] [0] 1 = Some [1]"
    by code_simp
  have "\<exists>r st' log'.
           modexp_hw_scalar (accel_dev 1 0 0) 0 [3] 0 0 [7] 1 [0] [0] 1 (accel_init 1, [])
             = (True, r, (st', log'))
           \<and> bn_value 1 r = mont_product 1 (bn_value 1 [7])
                 (mont_product 1 (bn_value 1 [7]) 1 (bn_value 1 [0])) 1"
    using wf by (intro modexp_hw_scalar_accel_no_bits) (simp_all add: MAX_WORDS_def bn_value_def)
  then obtain r s' where "modexp_hw_scalar (accel_dev 1 0 0) 0 [3] 0 0 [7] 1 [0] [0] 1
      (accel_init 1, []) = (True, r, s')" "bn_value 1 r = 0"
    by (auto simp: bn_value_def mont_product_zero)
  with sw show "\<exists>r_hw s' r_sw.
        modexp_hw_scalar (accel_dev 1 0 0) 0 [3] 0 0 [7] 1 [0] [0] 1 (accel_init 1, [])
          = (True, r_hw, s')
        \<and> modexp_sw_scalar [3] 0 0 [7] [0] 1 = Some r_sw
        \<and> bn_value 1 r_hw = 0 \<and> bn_value 1 r_sw = 1"
    by (simp add: bn_value_def)
qed

text \<open>
  C1, amended. Let the width \<open>n\<close> be at most \<open>MAX_WORDS\<close>, the modulus odd and above 1
  with \<open>N * N \<le> 2^(32 * n)\<close>, the base below \<open>N\<close> with no power that is a non-zero multiple
  of \<open>N\<close>, and \<open>R2\<close> congruent to \<open>R^2\<close> modulo \<open>N\<close> for \<open>R = 2^(32 * n)\<close>. Then for every
  exponent value, every bit length of at most 32 (the width of the exponent, beyond
  which the shift of the bit test is not defined in C) and every \<open>n'\<close>, on an
  accelerator that multiplies correctly and
  answers within the poll limit, \<open>modexp_hw_scalar\<close> succeeds, \<open>modexp_sw_scalar\<close>
  returns, the low \<open>n\<close> words of the two results are equal, and their value is
  \<open>base ^ (exp mod 2 ^ exp_bits) mod N\<close>.
\<close>

theorem modexp_hw_sw_agree:
  assumes n: "n \<le> MAX_WORDS"
    and len: "n \<le> length base" "n \<le> length N" "n \<le> length R2"
      "n \<le> length res_hw" "n \<le> length res_sw"
    and N: "odd (bn_value n N)" "1 < bn_value n N" "bn_value n N * bn_value n N \<le> 2 ^ (32 * n)"
    and base: "bn_value n base < bn_value n N"
      "\<forall>k. bn_value n N dvd bn_value n base ^ k \<longrightarrow> bn_value n base = 0"
    and R2: "bn_value n R2 mod bn_value n N = (2 ^ (32 * n) * 2 ^ (32 * n)) mod bn_value n N"
    and dev: "lat \<le> HW_DONE_TIMEOUT" "accel_wf n st"
    and bits: "exp_bits \<le> 32"
  shows "\<exists>r_hw s' r_sw.
           modexp_hw_scalar (accel_dev n lat b) b base exp exp_bits N nprime R2 res_hw n (st, log)
             = (True, r_hw, s')
           \<and> modexp_sw_scalar base exp exp_bits N res_sw n = Some r_sw
           \<and> take n r_hw = take n r_sw
           \<and> bn_value n r_hw = bn_value n base ^ (unat exp mod 2 ^ nat exp_bits) mod bn_value n N
           \<and> bn_value n r_sw = bn_value n base ^ (unat exp mod 2 ^ nat exp_bits) mod bn_value n N"
proof -
  from modexp_hw_scalar_accel [OF n len(1,2,3,4) dev(1) N(1) refl R2 refl dev(2),
      of b exp exp_bits nprime log]
  obtain r_hw s' where hw:
    "modexp_hw_scalar (accel_dev n lat b) b base exp exp_bits N nprime R2 res_hw n (st, log)
       = (True, r_hw, s')"
    "bn_value n r_hw = bn_value n base ^ (unat exp mod 2 ^ nat exp_bits) mod bn_value n N"
    "length r_hw = length res_hw"
    by auto
  from modexp_sw_scalar_value [OF n len(1,2,5) N(2,3) refl refl base, of exp exp_bits]
  obtain r_sw where sw: "modexp_sw_scalar base exp exp_bits N res_sw n = Some r_sw"
    "bn_value n r_sw = bn_value n base ^ (unat exp mod 2 ^ nat exp_bits) mod bn_value n N"
    "length r_sw = length res_sw"
    by auto
  have "take n r_hw = take n r_sw"
    using hw sw len(4,5) by (intro bn_value_inj) simp_all
  with hw sw show ?thesis by blast
qed

theorem modexp_hw_sw_agree_witness:
  "(1 :: nat) \<le> MAX_WORDS \<and> odd (bn_value 1 [7]) \<and> 1 < bn_value 1 [7]
   \<and> bn_value 1 [7] * bn_value 1 [7] \<le> 2 ^ (32 * 1)
   \<and> bn_value 1 [3] < bn_value 1 [7]
   \<and> bn_value 1 [2] mod bn_value 1 [7] = (2 ^ (32 * 1) * 2 ^ (32 * 1)) mod bn_value 1 [7]
   \<and> (0 :: nat) \<le> HW_DONE_TIMEOUT \<and> accel_wf 1 (accel_init 1)
   \<and> (2 :: int) \<le> 32
   \<and> (\<exists>r_hw s' r_sw.
         modexp_hw_scalar (accel_dev 1 0 0) 0 [3] 3 2 [7] 1 [2] [0] 1 (accel_init 1, [])
           = (True, r_hw, s')
         \<and> modexp_sw_scalar [3] 3 2 [7] [0] 1 = Some r_sw
         \<and> take 1 r_hw = take 1 r_sw
         \<and> bn_value 1 r_hw = 6 \<and> bn_value 1 r_sw = 6)"
proof -
  have h: "(1 :: nat) \<le> MAX_WORDS" "odd (bn_value 1 [7])" "1 < bn_value 1 [7]"
    "bn_value 1 [7] * bn_value 1 [7] \<le> 2 ^ (32 * 1)"
    "bn_value 1 [3] < bn_value 1 [7]"
    "bn_value 1 [2] mod bn_value 1 [7] = (2 ^ (32 * 1) * 2 ^ (32 * 1)) mod bn_value 1 [7]"
    "(0 :: nat) \<le> HW_DONE_TIMEOUT" "accel_wf 1 (accel_init 1)"
    by (simp_all add: MAX_WORDS_def bn_value_def accel_wf_def accel_init_def)
  have l: "1 \<le> length [3 :: u32]" "1 \<le> length [7 :: u32]" "1 \<le> length [2 :: u32]"
    "1 \<le> length [0 :: u32]"
    by simp_all
  have p: "\<forall>k. bn_value 1 [7] dvd bn_value 1 [3] ^ k \<longrightarrow> bn_value 1 [3] = 0"
  proof (intro allI impI)
    fix k
    assume "bn_value 1 [7] dvd bn_value 1 [3] ^ k"
    then have d: "(7 :: nat) dvd 3 ^ k" by (simp add: bn_value_def)
    have c: "coprime (7 :: nat) (3 ^ k)"
    proof -
      have "gcd (3 :: int) 7 = 1" by code_simp
      then have "coprime (3 :: int) 7" by (simp only: coprime_iff_gcd_eq_1)
      then have "coprime (3 :: nat) 7" using coprime_int_iff [of 3 7] by simp
      then show ?thesis
        by (simp add: coprime_commute [of 7] coprime_power_left_iff)
    qed
    from coprime_common_divisor [OF c dvd_refl d] have "(7 :: nat) dvd 1" .
    then show "bn_value 1 [3] = 0" by simp
  qed
  have v: "bn_value 1 [3] ^ (unat (3 :: u32) mod 2 ^ nat 2) mod bn_value 1 [7] = 6"
    by (simp add: bn_value_def)
  have hb: "(2 :: int) \<le> 32" by simp
  from modexp_hw_sw_agree [OF h(1) l(1,2,3,4,4) h(2,3,4,5) p h(6,7,8) hb, of 0 3 1 "[]"]
  show ?thesis
    using h hb unfolding v by blast
qed

section \<open>The software engine against the engine of the specification\<close>

lemma reduce_loop_stop:
  "n \<le> length R \<Longrightarrow> n \<le> length N \<Longrightarrow> bn_value n R \<le> bn_value n N \<Longrightarrow> reduce_loop R N n = Some R"
  by (subst reduce_loop.simps) (simp add: ge_flag_iff)

lemma modmul_sw_cases:
  assumes len: "n \<le> length A" "n \<le> length B" "n \<le> length N" "n \<le> length R"
  defines "P \<equiv> (bn_value n A * bn_value n B) mod 2 ^ (32 * n)"
  shows "(modmul_sw A B N R n = None \<and> bn_value n N = 0 \<and> P \<noteq> 0)
       \<or> (\<exists>R'. modmul_sw A B N R n = Some R' \<and> length R' = length R
              \<and> bn_value n R' = reduce_val P (bn_value n N)
              \<and> (1 \<le> bn_value n N \<or> P = 0))"
proof (cases "1 \<le> bn_value n N")
  case True
  from modmul_sw_value [OF len True] True show ?thesis
    unfolding P_def by blast
next
  case False
  then have z: "bn_value n N = 0" by simp
  define tmp where "tmp = mul_schoolbook A B n"
  define R1 where "R1 = fold (\<lambda>i r. r[i := ucast (tmp ! i)]) [0..<n] R"
  have t: "length tmp = 2 * n" "\<forall>x\<in>set tmp. unat x < 2 ^ 32"
    "tmp_val tmp = bn_value n A * bn_value n B"
    unfolding tmp_def using len(1,2) by (rule mul_schoolbook_value)+
  have n_tmp: "n \<le> length tmp" using t(1) by simp
  have r1: "length R1 = length R"
    unfolding R1_def using len(4) n_tmp by (rule copy_low_words)
  have v1: "bn_value n R1 = P"
    unfolding R1_def P_def using copy_low_value [OF len(4) n_tmp t(2)] by (simp add: t(3))
  have run: "modmul_sw A B N R n = reduce_loop R1 N n"
    by (simp add: modmul_sw_def tmp_def [symmetric] R1_def [symmetric] Let_def)
  show ?thesis
  proof (cases "P = 0")
    case True
    then have "reduce_loop R1 N n = Some R1"
      using r1 len(3,4) v1 by (intro reduce_loop_stop) simp_all
    with True r1 v1 z show ?thesis
      by (simp add: run reduce_val_def)
  next
    case nz: False
    have "reduce_loop R1 N n = None"
    proof (cases "reduce_loop R1 N n")
      case None
      then show ?thesis .
    next
      case (Some y)
      from reduce_loop_zero_modulus [OF this] z v1 r1 len(3,4) nz show ?thesis by simp
    qed
    with z nz show ?thesis by (simp add: run)
  qed
qed

lemma bn_value_take: "bn_value n (take n A) = bn_value n A"
  by (simp add: bn_value_def)

lemma modmul_sw_low_words:
  assumes len: "n \<le> length A" "n \<le> length B" "n \<le> length N" "n \<le> length R"
  shows "map_option (take n) (modmul_sw A B N R n) = modMul (take n N) n (take n A) (take n B)"
    and "modmul_sw A B N R n = Some R' \<Longrightarrow> length R' = length R"
proof -
  define P where "P = (bn_value n A * bn_value n B) mod 2 ^ (32 * n)"
  have l: "n \<le> length (take n A)" "n \<le> length (take n B)" "n \<le> length (take n N)"
    "n \<le> length (replicate n (0 :: u32))"
    using len by simp_all
  note c1 = modmul_sw_cases [OF len, folded P_def]
  note c2 = modmul_sw_cases [OF l, unfolded bn_value_take, folded P_def]
  from c1 show "modmul_sw A B N R n = Some R' \<Longrightarrow> length R' = length R"
    by auto
  show "map_option (take n) (modmul_sw A B N R n) = modMul (take n N) n (take n A) (take n B)"
  proof (cases "bn_value n N = 0 \<and> P \<noteq> 0")
    case True
    with c1 c2 show ?thesis by (auto simp: modMul_def)
  next
    case False
    with c1 obtain R1 where r1: "modmul_sw A B N R n = Some R1" "length R1 = length R"
      "bn_value n R1 = reduce_val P (bn_value n N)"
      by auto
    from False c2 obtain R2 where r2:
      "modmul_sw (take n A) (take n B) (take n N) (replicate n 0) n = Some R2"
      "length R2 = n" "bn_value n R2 = reduce_val P (bn_value n N)"
      by auto
    have "take n R1 = take n R2"
      using r1 r2 len(4) by (intro bn_value_inj) simp_all
    with r1 r2 show ?thesis by (simp add: modMul_def)
  qed
qed

lemma modexp_sw_loop_refines:
  assumes "n \<le> length N" "n \<le> length x" "n \<le> length a"
  shows "map_option (take n \<circ> fst) (modexp_sw_loop exp N n bs x a) =
           engine_loop_spec (modMul (take n N) n) (map (\<lambda>b. drop_bit b exp AND 1 \<noteq> 0) bs)
             (take n x) (take n a)"
  using assms(2,3)
proof (induction bs arbitrary: x a)
  case Nil
  then show ?case by simp
next
  case (Cons b bs)
  note mx = modmul_sw_low_words [OF Cons.prems(1,2) assms(1) Cons.prems(1)]
  note ma = modmul_sw_low_words [OF Cons.prems(2,2) assms(1) Cons.prems(2)]
  define x1 where "x1 = (if drop_bit b exp AND 1 \<noteq> 0 then modmul_sw x a N x n else Some x)"
  define s1 where "s1 = (if drop_bit b exp AND 1 \<noteq> 0
                          then modMul (take n N) n (take n x) (take n a) else Some (take n x))"
  have e1: "map_option (take n) x1 = s1"
    by (simp add: x1_def s1_def mx(1))
  have l1: "x1 = Some x' \<Longrightarrow> length x' = length x" for x'
    using mx(2) [of x'] by (simp add: x1_def split: if_splits)
  show ?case
  proof (cases x1)
    case None
    with e1 have "s1 = None" by simp
    with None show ?thesis
      by (simp add: x1_def [symmetric] s1_def [symmetric])
  next
    case (Some x')
    with e1 have s1: "s1 = Some (take n x')" by auto
    have lx': "n \<le> length x'" using l1 [OF Some] Cons.prems(1) by simp
    show ?thesis
    proof (cases "modmul_sw a a N a n")
      case None
      with ma(1) have "modMul (take n N) n (take n a) (take n a) = None" by simp
      with None Some s1 show ?thesis
        by (simp add: x1_def [symmetric] s1_def [symmetric])
    next
      case (Some a')
      with ma have a': "modMul (take n N) n (take n a) (take n a) = Some (take n a')"
        "n \<le> length a'"
        using Cons.prems(2) by auto
      from Cons.IH [OF lx' a'(2)] \<open>x1 = Some x'\<close> Some s1 a'(1) show ?thesis
        by (simp add: x1_def [symmetric] s1_def [symmetric])
    qed
  qed
qed

lemma modexp_sw_loop_length:
  assumes "n \<le> length N" "n \<le> length x" "n \<le> length a"
    and "modexp_sw_loop exp N n bs x a = Some (x', a')"
  shows "length x' = length x"
  using assms(2,3,4)
proof (induction bs arbitrary: x a)
  case Nil
  then show ?case by simp
next
  case (Cons b bs)
  note mx = modmul_sw_low_words(2) [OF Cons.prems(1,2) assms(1) Cons.prems(1)]
  note ma = modmul_sw_low_words(2) [OF Cons.prems(2,2) assms(1) Cons.prems(2)]
  from Cons.prems(3) obtain x1 a1 where s:
    "(if drop_bit b exp AND 1 \<noteq> 0 then modmul_sw x a N x n else Some x) = Some x1"
    "modmul_sw a a N a n = Some a1"
    "modexp_sw_loop exp N n bs x1 a1 = Some (x', a')"
    by (auto split: option.splits)
  have l: "length x1 = length x" "length a1 = length a"
    using s(1,2) mx [of x1] ma [of a1] by (auto split: if_splits)
  from Cons.IH [OF _ _ s(3)] l Cons.prems(1,2) show ?case by simp
qed

text \<open>
  C3, amended. The software variant runs the loop of the specification's engine with
  \<open>modMul\<close> as the multiply, but without entering or leaving the Montgomery domain: it
  starts from \<open>x = ONE\<close> and \<open>a = base\<close>, and its result is \<open>x\<close> after the loop; \<open>R2\<close> takes
  no part. On the low \<open>n\<close> words, and for a bit length of at most 32 (the width of the
  exponent, beyond which the shift of the bit test is not defined in C),
  \<open>modexp_sw_scalar\<close> is \<open>plain_engine_spec\<close>.
\<close>

theorem modexp_sw_scalar_plain_engine:
  assumes "1 \<le> n" "n \<le> MAX_WORDS" "n \<le> length base" "n \<le> length N" "n \<le> length result"
    and "exp_bits \<le> 32"
  shows "map_option (take n) (modexp_sw_scalar base exp exp_bits N result n) =
           plain_engine_spec (modMul (take n N) n) (ONE_words n) (take n base)
             (exp_bits_list exp exp_bits)"
proof -
  define x where "x = bigint_set_u32 uninit_words 1 n"
  define a where "a = bigint_copy uninit_words base n"
  have lu: "n \<le> length uninit_words" using assms(2) by (simp add: length_uninit_words)
  have lx: "n \<le> length x" "n \<le> length a"
    using lu assms(3) by (simp_all add: x_def a_def length_bigint_set_u32 bigint_copy_take)
  have tx: "take n x = ONE_words n"
    using assms(1) lu by (simp add: x_def bigint_set_u32_take ONE_words_def)
  have ta: "take n a = take n base"
    using lu assms(3) by (simp add: a_def bigint_copy_take)
  note loop = modexp_sw_loop_refines [OF assms(4) lx, of exp "[0..<nat exp_bits]",
      unfolded tx ta, folded exp_bits_list_def]
  show ?thesis
  proof (cases "modexp_sw_loop exp N n [0..<nat exp_bits] x a")
    case None
    with loop show ?thesis
      by (simp add: modexp_sw_scalar_def x_def [symmetric] a_def [symmetric] Let_def
          plain_engine_spec_def)
  next
    case (Some xa)
    obtain x' a' where xa: "xa = (x', a')" by (cases xa)
    from loop Some xa have e: "engine_loop_spec (modMul (take n N) n) (exp_bits_list exp exp_bits)
             (ONE_words n) (take n base) = Some (take n x')"
      by simp
    have lx': "n \<le> length x'"
      using modexp_sw_loop_length [OF assms(4) lx Some [unfolded xa]] lx(1) by simp
    have "take n (bigint_copy result x' n) = take n x'"
      using assms(5) lx' by (simp add: bigint_copy_take)
    with Some xa e show ?thesis
      by (simp add: modexp_sw_scalar_def x_def [symmetric] a_def [symmetric] Let_def
          plain_engine_spec_def)
  qed
qed

text \<open>
  C3 as it is stated fails: with one word, \<open>N = 7\<close>, \<open>base = 3\<close>, exponent 1 over 1 bit
  and \<open>R2 = 2 = R^2 mod 7\<close>, the engine of the specification over \<open>modMul\<close> returns 5 and
  \<open>modexp_sw_scalar\<close> returns 3.
\<close>

theorem modexp_sw_not_montgomery_engine:
  "modexp_sw_scalar [3] 1 1 [7] [0] 1 = Some [3]
   \<and> montgomery_engine_spec (modMul [7] 1) (ONE_words 1) [2] [3] (exp_bits_list 1 1) = Some [5]"
  by code_simp

theorem modexp_sw_scalar_plain_engine_witness:
  "(1 :: nat) \<le> 1 \<and> 1 \<le> MAX_WORDS \<and> 1 \<le> length [3 :: u32] \<and> 1 \<le> length [7 :: u32]
   \<and> 1 \<le> length [0 :: u32] \<and> (1 :: int) \<le> 32
   \<and> map_option (take 1) (modexp_sw_scalar [3] 1 1 [7] [0] 1) =
         plain_engine_spec (modMul (take 1 [7]) 1) (ONE_words 1) (take 1 [3]) (exp_bits_list 1 1)"
  using modexp_sw_scalar_plain_engine [of 1 "[3]" "[7]" "[0]" 1 1]
  by (simp add: MAX_WORDS_def)

end
